theory Spec2Isabelle
  imports Main
begin

section \<open>Data model of \<open>cache.py\<close>\<close>

text \<open>
  Frame numbers are Python integers. Geometry arrives either as numpy arrays or as Python
  lists; the two are told apart by \<open>isinstance(verts, np.ndarray)\<close>, so the model keeps the
  tag. An array of vertices has shape \<open>(n, 3)\<close>, so its \<open>size\<close> is \<open>3 * n\<close>.
\<close>

type_synonym frame = int

datatype 'a pyseq = NdArray "'a list" | PyList "'a list"

fun is_ndarray :: "'a pyseq \<Rightarrow> bool" where
  "is_ndarray (NdArray xs) = True"
| "is_ndarray (PyList xs) = False"

fun py_len :: "'a pyseq \<Rightarrow> nat" where
  "py_len (NdArray xs) = length xs"
| "py_len (PyList xs) = length xs"

fun nd_size :: "'a pyseq \<Rightarrow> nat" where
  "nd_size (NdArray xs) = 3 * length xs"
| "nd_size (PyList xs) = 3 * length xs"

fun to_list :: "'a pyseq \<Rightarrow> 'a list" where
  "to_list (NdArray xs) = xs"
| "to_list (PyList xs) = xs"

type_synonym ('v, 'i) geometry = "'v pyseq \<times> 'i pyseq \<times> string"

datatype shader = UNIFORM_COLOR

text \<open>
  The exceptions that occur. \<open>AttributeError\<close> and \<open>ValueError\<close> are subclasses of Python's
  \<open>Exception\<close>, which stands for any other of them; \<open>KeyboardInterrupt\<close> stands for the
  exceptions that derive from \<open>BaseException\<close> only (\<open>SystemExit\<close> is another), which a
  handler \<open>except Exception\<close> does not catch. \<open>is_exception e\<close> is
  \<open>isinstance(e, Exception)\<close>.
\<close>

datatype py_error = AttributeError | ValueError | Exception | KeyboardInterrupt

fun is_exception :: "py_error \<Rightarrow> bool" where
  "is_exception KeyboardInterrupt = False"
| "is_exception e = True"

text \<open>
  \<open>collections.OrderedDict\<close>: an association list in insertion order, oldest first.
  Assigning to a key that is present keeps its position, assigning to a new key appends.
  \<open>move_to_end\<close> and \<open>del\<close> raise \<open>KeyError\<close> on a missing key; the cache only calls them
  on keys that are present (right after the assignment, or read from the dictionary itself).
\<close>

type_synonym ('k, 'a) odict = "('k \<times> 'a) list"

definition od_keys :: "('k, 'a) odict \<Rightarrow> 'k list" where
  "od_keys d = map fst d"

definition od_contains :: "'k \<Rightarrow> ('k, 'a) odict \<Rightarrow> bool" where
  "od_contains k d = (k \<in> set (od_keys d))"

definition od_get :: "('k, 'a) odict \<Rightarrow> 'k \<Rightarrow> 'a option" where
  "od_get d k = map_of d k"

fun od_setitem :: "'k \<Rightarrow> 'a \<Rightarrow> ('k, 'a) odict \<Rightarrow> ('k, 'a) odict" where
  "od_setitem k v [] = [(k, v)]"
| "od_setitem k v (p # d) = (if fst p = k then (k, v) # d else p # od_setitem k v d)"

definition od_delitem :: "'k \<Rightarrow> ('k, 'a) odict \<Rightarrow> ('k, 'a) odict" where
  "od_delitem k d = filter (\<lambda>p. fst p \<noteq> k) d"

definition od_move_to_end :: "'k \<Rightarrow> ('k, 'a) odict \<Rightarrow> ('k, 'a) odict" where
  "od_move_to_end k d =
     (case od_get d k of None \<Rightarrow> d | Some v \<Rightarrow> od_delitem k d @ [(k, v)])"

text \<open>The module globals of \<open>cache.py\<close>, as one record.\<close>

record ('v, 'i, 'b) cache =
  shader :: "shader option"
  frame_cache :: "(frame, ('v, 'i) geometry) odict"
  batch_cache :: "frame \<rightharpoonup> 'b"
  last_frame :: int
  cache_hits :: nat
  cache_misses :: nat
  dirty_frames :: "frame set"
  object_hashes :: "string \<rightharpoonup> int"

definition max_cache_size :: nat where
  "max_cache_size = 500"

definition initial_cache :: "('v, 'i, 'b) cache" where
  "initial_cache =
     \<lparr> shader = None, frame_cache = [], batch_cache = Map.empty, last_frame = - 999,
       cache_hits = 0, cache_misses = 0, dirty_frames = {}, object_hashes = Map.empty \<rparr>"

section \<open>Operations of \<open>cache.py\<close>\<close>

definition get_shader :: "('v, 'i, 'b) cache \<Rightarrow> shader \<times> ('v, 'i, 'b) cache" where
  "get_shader s =
     (case shader s of
        None \<Rightarrow> (UNIFORM_COLOR, s\<lparr>shader := Some UNIFORM_COLOR\<rparr>)
      | Some sh \<Rightarrow> (sh, s))"

definition clear_cache :: "('v, 'i, 'b) cache \<Rightarrow> ('v, 'i, 'b) cache" where
  "clear_cache s =
     s\<lparr>frame_cache := [], batch_cache := Map.empty, last_frame := - 999,
       cache_hits := 0, cache_misses := 0, dirty_frames := {}, object_hashes := Map.empty\<rparr>"

definition is_frame_cached :: "frame \<Rightarrow> ('v, 'i, 'b) cache \<Rightarrow> bool" where
  "is_frame_cached frame s =
     (if frame \<in> dirty_frames s then False else od_contains frame (frame_cache s))"

definition batch_del :: "frame \<Rightarrow> ('v, 'i, 'b) cache \<Rightarrow> ('v, 'i, 'b) cache" where
  "batch_del frame s =
     (if frame \<in> dom (batch_cache s) then s\<lparr>batch_cache := (batch_cache s)(frame := None)\<rparr>
      else s)"

definition mark_frame_dirty :: "frame \<Rightarrow> ('v, 'i, 'b) cache \<Rightarrow> ('v, 'i, 'b) cache" where
  "mark_frame_dirty frame s =
     batch_del frame (s\<lparr>dirty_frames := insert frame (dirty_frames s)\<rparr>)"

definition mark_all_dirty :: "('v, 'i, 'b) cache \<Rightarrow> ('v, 'i, 'b) cache" where
  "mark_all_dirty s =
     s\<lparr>dirty_frames := dirty_frames s \<union> set (od_keys (frame_cache s)),
       batch_cache := Map.empty\<rparr>"

text \<open>
  Both eviction loops remove a frame the same way: \<open>del _frame_cache[frame]\<close>, then the batch
  built for it, if there is one.
\<close>

definition evict_frame :: "frame \<Rightarrow> ('v, 'i, 'b) cache \<Rightarrow> ('v, 'i, 'b) cache" where
  "evict_frame frame s = batch_del frame (s\<lparr>frame_cache := od_delitem frame (frame_cache s)\<rparr>)"

text \<open>
  The eviction loop of \<open>add_to_cache\<close>: while the dictionary is over capacity, drop its
  first key, and the batch built for it.
\<close>

function evict_lru :: "('v, 'i, 'b) cache \<Rightarrow> ('v, 'i, 'b) cache" where
  "evict_lru s =
     (if length (frame_cache s) > max_cache_size then
        (let old_frame = hd (od_keys (frame_cache s))
         in evict_lru (evict_frame old_frame s))
      else s)"
  by pat_completeness auto
termination
  apply (relation "measure (\<lambda>s. length (frame_cache s))")
   apply simp
  apply (case_tac "frame_cache s")
   apply (simp_all add: evict_frame_def batch_del_def od_delitem_def od_keys_def less_Suc_eq_le)
  done

declare evict_lru.simps [simp del]

text \<open>
  \<open>add_to_cache\<close>. \<open>None\<close> for \<open>verts\<close> or \<open>indices\<close> is Python's \<open>None\<close>. The flag
  \<open>has_numpy\<close> is the module's \<open>HAS_NUMPY\<close>, fixed at import time.
\<close>

definition is_empty_data :: "bool \<Rightarrow> 'v pyseq \<Rightarrow> 'i pyseq \<Rightarrow> bool" where
  "is_empty_data has_numpy verts indices =
     (if has_numpy then
        (if is_ndarray verts then nd_size verts = 0 else py_len verts = 0)
      else (py_len verts = 0 \<or> py_len indices = 0))"

definition add_to_cache ::
  "bool \<Rightarrow> frame \<Rightarrow> 'v pyseq option \<Rightarrow> 'i pyseq option \<Rightarrow> string
     \<Rightarrow> ('v, 'i, 'b) cache \<Rightarrow> ('v, 'i, 'b) cache" where
  "add_to_cache has_numpy frame verts indices prim_type s =
     (case (verts, indices) of
        (Some vs, Some ix) \<Rightarrow>
          (if is_empty_data has_numpy vs ix then s
           else
             (let s1 = s\<lparr>cache_misses := cache_misses s + 1\<rparr>;
                  s2 = s1\<lparr>frame_cache := od_setitem frame (vs, ix, prim_type) (frame_cache s1)\<rparr>;
                  s3 = s2\<lparr>frame_cache := od_move_to_end frame (frame_cache s2)\<rparr>;
                  s4 = s3\<lparr>dirty_frames := dirty_frames s3 - {frame}\<rparr>;
                  s5 = batch_del frame s4
              in evict_lru s5))
      | _ \<Rightarrow> s)"

text \<open>
  \<open>get_batch\<close>. The external \<open>batch_for_shader\<close> is a parameter; \<open>None\<close> stands for an
  exception raised by it, which the \<open>try\<close> block turns into the result \<open>None\<close>. The call
  \<open>indices.tolist()\<close> is outside the \<open>try\<close> block and raises \<open>AttributeError\<close> when the
  vertices are an array and the indices are a list.
\<close>

datatype 'a outcome = Returned 'a | Raised py_error

definition get_batch ::
  "(shader \<Rightarrow> string \<Rightarrow> 'v list \<Rightarrow> 'i list \<Rightarrow> 'b option) \<Rightarrow> bool \<Rightarrow> frame
     \<Rightarrow> ('v, 'i, 'b) cache \<Rightarrow> 'b option outcome \<times> ('v, 'i, 'b) cache" where
  "get_batch batch_for_shader has_numpy frame s =
     (if frame \<in> dirty_frames s then (Returned None, s)
      else if frame \<in> dom (batch_cache s) then
        (Returned (batch_cache s frame), s\<lparr>cache_hits := cache_hits s + 1\<rparr>)
      else
        (case od_get (frame_cache s) frame of
           None \<Rightarrow> (Returned None, s)
         | Some (verts, indices, prim_type) \<Rightarrow>
             (case get_shader s of (sh, s1) \<Rightarrow>
                if has_numpy \<and> is_ndarray verts \<and> \<not> is_ndarray indices
                then (Raised AttributeError, s1)
                else
                  (case batch_for_shader sh prim_type (to_list verts) (to_list indices) of
                     Some batch \<Rightarrow>
                       (Returned (Some batch),
                        s1\<lparr>batch_cache := (batch_cache s1)(frame \<mapsto> batch),
                           cache_hits := cache_hits s1 + 1\<rparr>)
                   | None \<Rightarrow> (Returned None, s1)))))"

definition get_cache_size :: "('v, 'i, 'b) cache \<Rightarrow> nat" where
  "get_cache_size s = length (frame_cache s)"

text \<open>The statistics dictionary, without the floating-point \<open>hit_rate\<close>.\<close>

record cache_stats =
  stat_size :: nat
  stat_max_size :: nat
  stat_hits :: nat
  stat_misses :: nat
  stat_dirty :: nat

definition get_cache_stats :: "('v, 'i, 'b) cache \<Rightarrow> cache_stats" where
  "get_cache_stats s =
     \<lparr> stat_size = length (frame_cache s), stat_max_size = max_cache_size,
       stat_hits = cache_hits s, stat_misses = cache_misses s,
       stat_dirty = card (dirty_frames s) \<rparr>"

definition invalidate_frames_near ::
  "frame \<Rightarrow> int \<Rightarrow> ('v, 'i, 'b) cache \<Rightarrow> ('v, 'i, 'b) cache" where
  "invalidate_frames_near center_frame radius s =
     fold (\<lambda>frame s'. if \<bar>frame - center_frame\<bar> \<le> radius then mark_frame_dirty frame s' else s')
       (od_keys (frame_cache s)) s"

definition evict_distant_frames ::
  "frame \<Rightarrow> int \<Rightarrow> ('v, 'i, 'b) cache \<Rightarrow> ('v, 'i, 'b) cache" where
  "evict_distant_frames current_frame keep_radius s =
     (let to_remove = fold (\<lambda>frame acc. if \<bar>frame - current_frame\<bar> > keep_radius
                                        then acc @ [frame] else acc)
                        (od_keys (frame_cache s)) []
      in fold evict_frame to_remove s)"

definition cleanup :: "('v, 'i, 'b) cache \<Rightarrow> ('v, 'i, 'b) cache" where
  "cleanup s = clear_cache (s\<lparr>shader := None\<rparr>)"

section \<open>The scheduler of \<open>async_cache.py\<close>\<close>

text \<open>
  The settings the scheduler reads, and the world it runs in: Blender's context and scene
  (whether the context has a scene, whether the scene has the settings attribute, the
  tracked objects, the current frame and the scene's frame range), the cache, and the module
  globals \<open>_pending_frames\<close> and \<open>_is_caching\<close>.
\<close>

record settings =
  enabled :: bool
  frames_before :: int
  frames_after :: int
  frame_step :: int
  use_frame_range :: bool
  frame_range_start :: int
  frame_range_end :: int

record ('v, 'i, 'b) world =
  context_ok :: bool
  has_settings :: bool
  onion_skin_settings :: settings
  onion_skin_objects :: "string list"
  frame_current :: frame
  frame_start :: frame
  frame_end :: frame
  cache :: "('v, 'i, 'b) cache"
  pending_frames :: "frame list"
  is_caching :: bool

text \<open>
  Python's \<open>range(start, stop, step)\<close> as a list; a step of zero raises \<open>ValueError\<close>.
\<close>

definition py_range :: "int \<Rightarrow> int \<Rightarrow> int \<Rightarrow> py_error + int list" where
  "py_range start stop step =
     (if step = 0 then Inl ValueError
      else if step > 0 then
        Inr (map (\<lambda>k. start + int k * step) [0..<nat ((stop - start + step - 1) div step)])
      else
        Inr (map (\<lambda>k. start + int k * step) [0..<nat ((start - stop - step - 1) div (- step))]))"

text \<open>\<open>drawing.get_frame_range\<close>: the custom range if it is switched on, else the scene's.\<close>

definition get_frame_range :: "('v, 'i, 'b) world \<Rightarrow> frame \<times> frame" where
  "get_frame_range w =
     (if use_frame_range (onion_skin_settings w)
      then (frame_range_start (onion_skin_settings w), frame_range_end (onion_skin_settings w))
      else (frame_start w, frame_end w))"

text \<open>
  \<open>get_precache_frames\<close>. Reading the settings of a scene that has none raises
  \<open>AttributeError\<close>. The two loops append to \<open>frames\<close>; the sort is Python's stable sort by
  the distance from the current frame.
\<close>

definition get_precache_frames :: "('v, 'i, 'b) world \<Rightarrow> int \<Rightarrow> py_error + frame list" where
  "get_precache_frames w direction =
     (if \<not> has_settings w then Inl AttributeError
      else
        (let current = frame_current w;
             range_start = fst (get_frame_range w);
             range_end = snd (get_frame_range w);
             step = frame_step (onion_skin_settings w);
             look_ahead = max (frames_before (onion_skin_settings w))
                              (frames_after (onion_skin_settings w)) + 5
         in case py_range step (look_ahead + 1) step of
              Inl e \<Rightarrow> Inl e
            | Inr steps \<Rightarrow>
                (let ahead =
                       (if direction \<ge> 0 then
                          fold (\<lambda>i frames. if current + i \<le> range_end
                                               \<and> \<not> is_frame_cached (current + i) (cache w)
                                            then frames @ [current + i] else frames) steps []
                        else []);
                     frames =
                       (if direction \<le> 0 then
                          fold (\<lambda>i frames. if current - i \<ge> range_start
                                               \<and> \<not> is_frame_cached (current - i) (cache w)
                                            then frames @ [current - i] else frames) steps ahead
                        else ahead)
                 in Inr (take 10 (sort_key (\<lambda>f. \<bar>f - current\<bar>) frames)))))"

text \<open>
  \<open>scene.frame_set\<close> belongs to Blender; it is modelled by its effect on the current frame.
\<close>

definition frame_set :: "frame \<Rightarrow> ('v, 'i, 'b) world \<Rightarrow> ('v, 'i, 'b) world" where
  "frame_set f w = w\<lparr>frame_current := f\<rparr>"

text \<open>
  \<open>_background_cache_step\<close>. The geometry extraction \<open>drawing.cache_frame\<close> is a parameter:
  any function that returns or raises and leaves the world in any state it likes. The step
  returns the delay until the next tick (\<open>Some 50\<close> for the 0.05 seconds) or \<open>None\<close> to stop the
  timer.

  \<open>restore_frame\<close> is the end of the step, from the comment \<open># Restore frame if changed\<close> on.
  \<open>cache_pending_frame\<close> is the step from the \<open>pop\<close> on, which is reached with a queue that
  is not empty. The handler \<open>except Exception: pass\<close> swallows an exception of \<open>cache_frame\<close>
  that is an \<open>Exception\<close>; any other propagates out of the step at once, and the lines after
  the \<open>try\<close> statement do not run.
\<close>

definition restore_frame ::
  "frame \<Rightarrow> ('v, 'i, 'b) world \<Rightarrow> nat option outcome \<times> ('v, 'i, 'b) world" where
  "restore_frame original_frame w =
     (let w1 = (if frame_current w \<noteq> original_frame then frame_set original_frame w else w)
      in if pending_frames w1 \<noteq> [] then (Returned (Some 50), w1)
         else (Returned None, w1\<lparr>is_caching := False\<rparr>))"

definition cache_pending_frame ::
  "(frame \<Rightarrow> ('v, 'i, 'b) world \<Rightarrow> bool outcome \<times> ('v, 'i, 'b) world)
     \<Rightarrow> ('v, 'i, 'b) world \<Rightarrow> nat option outcome \<times> ('v, 'i, 'b) world" where
  "cache_pending_frame cache_frame w =
     (let frame = hd (pending_frames w);
          w1 = w\<lparr>pending_frames := tl (pending_frames w)\<rparr>;
          original_frame = frame_current w1
      in case cache_frame frame w1 of
           (Returned r, w2) \<Rightarrow> restore_frame original_frame w2
         | (Raised e, w2) \<Rightarrow>
             if is_exception e then restore_frame original_frame w2 else (Raised e, w2))"

definition background_cache_step ::
  "(frame \<Rightarrow> ('v, 'i, 'b) world \<Rightarrow> bool outcome \<times> ('v, 'i, 'b) world)
     \<Rightarrow> ('v, 'i, 'b) world \<Rightarrow> nat option outcome \<times> ('v, 'i, 'b) world" where
  "background_cache_step cache_frame w =
     (if \<not> context_ok w then (Returned None, w\<lparr>is_caching := False\<rparr>)
      else if \<not> has_settings w then (Returned None, w\<lparr>is_caching := False\<rparr>)
      else if \<not> enabled (onion_skin_settings w) \<or> onion_skin_objects w = []
        then (Returned None, w\<lparr>is_caching := False\<rparr>)
      else if pending_frames w = [] then
        (case get_precache_frames w 0 of
           Inl e \<Rightarrow> (Raised e, w)
         | Inr frames \<Rightarrow>
             if frames = [] then (Returned None, w\<lparr>pending_frames := frames, is_caching := False\<rparr>)
             else cache_pending_frame cache_frame (w\<lparr>pending_frames := frames\<rparr>))
      else cache_pending_frame cache_frame w)"

definition stop_background_caching :: "('v, 'i, 'b) world \<Rightarrow> ('v, 'i, 'b) world" where
  "stop_background_caching w = w\<lparr>is_caching := False, pending_frames := []\<rparr>"

section \<open>Sequences of cache operations\<close>

text \<open>A call of \<open>add_to_cache\<close>, as data, and a run of such calls from left to right.\<close>

type_synonym ('v, 'i) add_call = "frame \<times> 'v pyseq option \<times> 'i pyseq option \<times> string"

definition run_adds ::
  "bool \<Rightarrow> ('v, 'i) add_call list \<Rightarrow> ('v, 'i, 'b) cache \<Rightarrow> ('v, 'i, 'b) cache" where
  "run_adds has_numpy calls s =
     fold (\<lambda>(frame, verts, indices, prim_type). add_to_cache has_numpy frame verts indices prim_type)
       calls s"

text \<open>The calls that insert the same geometry at each frame of a list.\<close>

definition adds_of ::
  "'v pyseq \<Rightarrow> 'i pyseq \<Rightarrow> string \<Rightarrow> frame list \<Rightarrow> ('v, 'i) add_call list" where
  "adds_of vs ix prim_type fs = map (\<lambda>f. (f, Some vs, Some ix, prim_type)) fs"

datatype ('v, 'i) cache_op =
    Add frame "'v pyseq option" "'i pyseq option" string
  | GetBatch frame
  | MarkDirty frame
  | MarkAllDirty
  | InvalidateNear frame int
  | EvictDistant frame int
  | Clear

fun apply_op ::
  "(shader \<Rightarrow> string \<Rightarrow> 'v list \<Rightarrow> 'i list \<Rightarrow> 'b option) \<Rightarrow> bool \<Rightarrow> ('v, 'i) cache_op
     \<Rightarrow> ('v, 'i, 'b) cache \<Rightarrow> ('v, 'i, 'b) cache" where
  "apply_op bfs has_numpy (Add frame verts indices prim_type) s =
     add_to_cache has_numpy frame verts indices prim_type s"
| "apply_op bfs has_numpy (GetBatch frame) s = snd (get_batch bfs has_numpy frame s)"
| "apply_op bfs has_numpy (MarkDirty frame) s = mark_frame_dirty frame s"
| "apply_op bfs has_numpy MarkAllDirty s = mark_all_dirty s"
| "apply_op bfs has_numpy (InvalidateNear center radius) s = invalidate_frames_near center radius s"
| "apply_op bfs has_numpy (EvictDistant current keep_radius) s =
     evict_distant_frames current keep_radius s"
| "apply_op bfs has_numpy Clear s = clear_cache s"

definition run_ops ::
  "(shader \<Rightarrow> string \<Rightarrow> 'v list \<Rightarrow> 'i list \<Rightarrow> 'b option) \<Rightarrow> bool \<Rightarrow> ('v, 'i) cache_op list
     \<Rightarrow> ('v, 'i, 'b) cache \<Rightarrow> ('v, 'i, 'b) cache" where
  "run_ops bfs has_numpy ops s = fold (apply_op bfs has_numpy) ops s"

section \<open>Sample data\<close>

text \<open>
  One triangle as lists of tuples, and a batch builder that records what it was given.
\<close>

type_synonym vertex = "int \<times> int \<times> int"

type_synonym sample_batch = "string \<times> vertex list \<times> nat list list"

type_synonym sample_cache = "(vertex, nat list, sample_batch) cache"

definition tri_verts :: "vertex pyseq" where
  "tri_verts = PyList [(0, 0, 0), (1, 0, 0), (0, 1, 0)]"

definition tri_indices :: "nat list pyseq" where
  "tri_indices = PyList [[0, 1, 2]]"

definition record_batch :: "shader \<Rightarrow> string \<Rightarrow> vertex list \<Rightarrow> nat list list \<Rightarrow> sample_batch option" where
  "record_batch sh prim_type vs ix = Some (prim_type, vs, ix)"

definition cache_of_frames :: "frame list \<Rightarrow> sample_cache" where
  "cache_of_frames fs = run_adds True (adds_of tri_verts tri_indices ''TRIS'' fs) initial_cache"

definition moved_verts :: "vertex pyseq" where
  "moved_verts = PyList [(2, 2, 2), (3, 2, 2), (2, 3, 2)]"

text \<open>The same vertices as a numpy array.\<close>

definition moved_verts_array :: "vertex pyseq" where
  "moved_verts_array = NdArray [(2, 2, 2), (3, 2, 2), (2, 3, 2)]"

text \<open>A cache with frame 5 stored, drawn once and then invalidated.\<close>

definition dirty_sample_cache :: sample_cache where
  "dirty_sample_cache = mark_all_dirty (snd (get_batch record_batch True 5 (cache_of_frames [5])))"

text \<open>
  The frame cache filled to capacity with the frames 1 to 500 in increasing order; the same
  after \<open>get_batch\<close> has served frame 1, the oldest; and after one more frame has then been
  added.
\<close>

definition full_cache :: sample_cache where
  "full_cache = cache_of_frames [1..500]"

definition touched_full_cache :: sample_cache where
  "touched_full_cache = snd (get_batch record_batch True 1 full_cache)"

definition overflowed_cache :: sample_cache where
  "overflowed_cache = add_to_cache True 501 (Some tri_verts) (Some tri_indices) ''TRIS'' touched_full_cache"

text \<open>The full cache with its oldest frame marked dirty.\<close>

definition stale_full_cache :: sample_cache where
  "stale_full_cache = mark_frame_dirty 1 full_cache"

definition sample_ops :: "(vertex, nat list) cache_op list" where
  "sample_ops =
     [Add 5 (Some tri_verts) (Some tri_indices) ''TRIS'',
      Add 6 (Some tri_verts) (Some tri_indices) ''TRIS'',
      GetBatch 5, GetBatch 6, MarkDirty 5, GetBatch 5]"

text \<open>
  Two worlds for the scheduler, both with an empty cache: the current frame 100 inside the
  custom range 90 to 110 with a frame step of 2, and the current frame 5 outside the custom
  range 10 to 20 with a frame step of 1. In both, ten frames are shown before and after.
\<close>

definition precache_world :: "(vertex, nat list, sample_batch) world" where
  "precache_world =
     \<lparr> context_ok = True, has_settings = True,
       onion_skin_settings =
         \<lparr> enabled = True, frames_before = 10, frames_after = 10, frame_step = 2,
           use_frame_range = True, frame_range_start = 90, frame_range_end = 110 \<rparr>,
       onion_skin_objects = [''Cube''], frame_current = 100, frame_start = 1, frame_end = 250,
       cache = initial_cache, pending_frames = [], is_caching = False \<rparr>"

definition outside_world :: "(vertex, nat list, sample_batch) world" where
  "outside_world =
     \<lparr> context_ok = True, has_settings = True,
       onion_skin_settings =
         \<lparr> enabled = True, frames_before = 10, frames_after = 10, frame_step = 1,
           use_frame_range = True, frame_range_start = 10, frame_range_end = 20 \<rparr>,
       onion_skin_objects = [''Cube''], frame_current = 5, frame_start = 1, frame_end = 250,
       cache = initial_cache, pending_frames = [], is_caching = False \<rparr>"

text \<open>
  Two geometry extractions that move the scene to the frame and then fail: one with an
  \<open>Exception\<close>, one with a \<open>KeyboardInterrupt\<close>.
\<close>

definition failing_cache_frame ::
  "frame \<Rightarrow> (vertex, nat list, sample_batch) world
     \<Rightarrow> bool outcome \<times> (vertex, nat list, sample_batch) world" where
  "failing_cache_frame frame w = (Raised Exception, frame_set frame w)"

definition interrupted_cache_frame ::
  "frame \<Rightarrow> (vertex, nat list, sample_batch) world
     \<Rightarrow> bool outcome \<times> (vertex, nat list, sample_batch) world" where
  "interrupted_cache_frame frame w = (Raised KeyboardInterrupt, frame_set frame w)"

section \<open>Auxiliary notions for the proofs\<close>

text \<open>
  \<open>add_accepts\<close> is the condition under which \<open>add_to_cache\<close> gets past its early
  returns, \<open>add_stored\<close> is the state it has reached when the eviction loop starts, and
  \<open>clean_batches\<close> says that no dirty frame has a built batch.
\<close>

definition add_accepts :: "bool \<Rightarrow> 'v pyseq option \<Rightarrow> 'i pyseq option \<Rightarrow> bool" where
  "add_accepts has_numpy verts indices =
     (case (verts, indices) of
        (Some vs, Some ix) \<Rightarrow> \<not> is_empty_data has_numpy vs ix
      | _ \<Rightarrow> False)"

definition add_stored ::
  "frame \<Rightarrow> ('v, 'i) geometry \<Rightarrow> ('v, 'i, 'b) cache \<Rightarrow> ('v, 'i, 'b) cache" where
  "add_stored frame g s =
     batch_del frame
       (s\<lparr>cache_misses := cache_misses s + 1,
          frame_cache := od_delitem frame (frame_cache s) @ [(frame, g)],
          dirty_frames := dirty_frames s - {frame}\<rparr>)"

definition clean_batches :: "('v, 'i, 'b) cache \<Rightarrow> bool" where
  "clean_batches s = (dirty_frames s \<inter> dom (batch_cache s) = {})"

text \<open>
  For the scheduler: \<open>look_ahead\<close> is the local variable of \<open>get_precache_frames\<close>;
  \<open>precache_candidate\<close> says in the words of the specification which frames may be
  proposed: not cached, a positive multiple of the frame step away from the current frame
  and within \<open>look_ahead\<close>, ahead (for a direction \<open>\<ge> 0\<close>) and not beyond the end of the
  frame range, or behind (for a direction \<open>\<le> 0\<close>) and not before its start;
  \<open>all_candidates\<close> is the list the two loops build, written with \<open>map\<close> and \<open>filter\<close>.
\<close>

definition look_ahead :: "('v, 'i, 'b) world \<Rightarrow> int" where
  "look_ahead w =
     max (frames_before (onion_skin_settings w)) (frames_after (onion_skin_settings w)) + 5"

definition precache_candidate :: "('v, 'i, 'b) world \<Rightarrow> int \<Rightarrow> frame \<Rightarrow> bool" where
  "precache_candidate w direction f =
     (\<not> is_frame_cached f (cache w) \<and>
      (\<exists>k\<ge>1. k * frame_step (onion_skin_settings w) \<le> look_ahead w \<and>
         (0 \<le> direction \<and> f = frame_current w + k * frame_step (onion_skin_settings w)
            \<and> f \<le> snd (get_frame_range w)
          \<or> direction \<le> 0 \<and> f = frame_current w - k * frame_step (onion_skin_settings w)
            \<and> fst (get_frame_range w) \<le> f)))"

definition all_candidates :: "('v, 'i, 'b) world \<Rightarrow> int \<Rightarrow> frame list" where
  "all_candidates w direction =
     (let current = frame_current w;
          steps = map (\<lambda>k. (int k + 1) * frame_step (onion_skin_settings w))
                    [0..<nat (look_ahead w div frame_step (onion_skin_settings w))]
      in (if 0 \<le> direction then
            map (\<lambda>i. current + i)
              (filter (\<lambda>i. current + i \<le> snd (get_frame_range w)
                         \<and> \<not> is_frame_cached (current + i) (cache w)) steps)
          else []) @
         (if direction \<le> 0 then
            map (\<lambda>i. current - i)
              (filter (\<lambda>i. fst (get_frame_range w) \<le> current - i
                         \<and> \<not> is_frame_cached (current - i) (cache w)) steps)
          else []))"

section \<open>Basic facts about the dictionary and the eviction loop\<close>

lemma batch_del_fields [simp]:
  "frame_cache (batch_del f s) = frame_cache s"
  "dirty_frames (batch_del f s) = dirty_frames s"
  "cache_hits (batch_del f s) = cache_hits s"
  "cache_misses (batch_del f s) = cache_misses s"
  "shader (batch_del f s) = shader s"
  "last_frame (batch_del f s) = last_frame s"
  "object_hashes (batch_del f s) = object_hashes s"
  by (simp_all add: batch_del_def)

lemma batch_del_batch [simp]: "batch_cache (batch_del f s) = (batch_cache s)(f := None)"
  by (auto simp: batch_del_def fun_eq_iff domIff)

lemma evict_frame_fields [simp]:
  "frame_cache (evict_frame f s) = od_delitem f (frame_cache s)"
  "batch_cache (evict_frame f s) = (batch_cache s)(f := None)"
  "dirty_frames (evict_frame f s) = dirty_frames s"
  "cache_hits (evict_frame f s) = cache_hits s"
  "cache_misses (evict_frame f s) = cache_misses s"
  "shader (evict_frame f s) = shader s"
  "last_frame (evict_frame f s) = last_frame s"
  "object_hashes (evict_frame f s) = object_hashes s"
  by (simp_all add: evict_frame_def)

lemma od_keys_simps [simp]:
  "od_keys [] = []" "od_keys (p # d) = fst p # od_keys d" "od_keys (d @ e) = od_keys d @ od_keys e"
  by (simp_all add: od_keys_def)

lemma od_keys_delitem: "od_keys (od_delitem k d) = filter (\<lambda>f. f \<noteq> k) (od_keys d)"
  by (induction d) (simp_all add: od_delitem_def)

lemma od_delitem_absent: "k \<notin> set (od_keys d) \<Longrightarrow> od_delitem k d = d"
  by (induction d) (auto simp: od_delitem_def)

lemma od_delitem_Cons: "od_delitem k (p # d) = (if fst p = k then od_delitem k d else p # od_delitem k d)"
  by (simp add: od_delitem_def)

lemma od_delitem_append: "od_delitem k (d @ e) = od_delitem k d @ od_delitem k e"
  by (simp add: od_delitem_def)

lemma evict_lru_noop: "length (frame_cache s) \<le> max_cache_size \<Longrightarrow> evict_lru s = s"
  by (subst evict_lru.simps) simp

lemma evict_lru_step:
  "max_cache_size < length (frame_cache s) \<Longrightarrow>
   evict_lru s = evict_lru (evict_frame (hd (od_keys (frame_cache s))) s)"
  by (subst evict_lru.simps) (simp add: Let_def)

lemma evict_lru_length: "length (frame_cache (evict_lru s)) \<le> max_cache_size"
proof (induction s rule: evict_lru.induct)
  case (1 s)
  show ?case
  proof (cases "max_cache_size < length (frame_cache s)")
    case True
    with 1 show ?thesis by (simp add: evict_lru_step)
  next
    case False
    then show ?thesis by (simp add: evict_lru_noop)
  qed
qed

lemma evict_lru_fields:
  "dirty_frames (evict_lru s) = dirty_frames s \<and> cache_hits (evict_lru s) = cache_hits s \<and>
   cache_misses (evict_lru s) = cache_misses s \<and> shader (evict_lru s) = shader s \<and>
   last_frame (evict_lru s) = last_frame s \<and> object_hashes (evict_lru s) = object_hashes s"
proof (induction s rule: evict_lru.induct)
  case (1 s)
  show ?case
  proof (cases "max_cache_size < length (frame_cache s)")
    case True
    with 1 show ?thesis by (simp add: evict_lru_step)
  next
    case False
    then show ?thesis by (simp add: evict_lru_noop)
  qed
qed

lemma evict_lru_batch: "batch_cache (evict_lru s) f = None \<or> batch_cache (evict_lru s) f = batch_cache s f"
proof (induction s rule: evict_lru.induct)
  case (1 s)
  show ?case
  proof (cases "max_cache_size < length (frame_cache s)")
    case True
    with 1 show ?thesis by (auto simp: evict_lru_step split: if_splits)
  next
    case False
    then show ?thesis by (simp add: evict_lru_noop)
  qed
qed

lemma evict_lru_keys_subset:
  "set (od_keys (frame_cache (evict_lru s))) \<subseteq> set (od_keys (frame_cache s))"
proof (induction s rule: evict_lru.induct)
  case (1 s)
  show ?case
  proof (cases "max_cache_size < length (frame_cache s)")
    case True
    with 1 show ?thesis by (auto simp: evict_lru_step od_keys_delitem)
  next
    case False
    then show ?thesis by (simp add: evict_lru_noop)
  qed
qed

lemma evict_lru_evicted:
  "f \<in> set (od_keys (frame_cache s)) \<Longrightarrow> f \<notin> set (od_keys (frame_cache (evict_lru s))) \<Longrightarrow>
   batch_cache (evict_lru s) f = None"
proof (induction s rule: evict_lru.induct)
  case (1 s)
  show ?case
  proof (cases "max_cache_size < length (frame_cache s)")
    case True
    let ?old = "hd (od_keys (frame_cache s))"
    let ?s1 = "evict_frame ?old s"
    have step: "evict_lru s = evict_lru ?s1" using True by (rule evict_lru_step)
    show ?thesis
    proof (cases "f = ?old")
      case True
      have "batch_cache ?s1 f = None" using True by simp
      with evict_lru_batch [of ?s1 f] show ?thesis by (auto simp: step)
    next
      case False
      then have "f \<in> set (od_keys (frame_cache ?s1))"
        using "1.prems"(1) by (simp add: od_keys_delitem)
      moreover have "f \<notin> set (od_keys (frame_cache (evict_lru ?s1)))"
        using "1.prems"(2) by (simp add: step)
      ultimately show ?thesis using "1.IH" [OF True refl] by (simp add: step)
    qed
  next
    case False
    with "1.prems" show ?thesis by (simp add: evict_lru_noop)
  qed
qed

lemma evict_lru_keeps_last:
  "frame_cache s = d @ [(F, g)] \<Longrightarrow> F \<notin> set (od_keys d) \<Longrightarrow>
   \<exists>d'. frame_cache (evict_lru s) = d' @ [(F, g)] \<and> F \<notin> set (od_keys d')"
proof (induction s arbitrary: d rule: evict_lru.induct)
  case (1 s)
  show ?case
  proof (cases "max_cache_size < length (frame_cache s)")
    case True
    let ?old = "hd (od_keys (frame_cache s))"
    let ?s1 = "evict_frame ?old s"
    have step: "evict_lru s = evict_lru ?s1" using True by (rule evict_lru_step)
    have "0 < max_cache_size" by (simp add: max_cache_size_def)
    with True "1.prems"(1) obtain p d0 where d: "d = p # d0" by (cases d) auto
    then have old: "?old = fst p" using "1.prems"(1) by simp
    have neq: "fst p \<noteq> F" using "1.prems"(2) d by auto
    have "frame_cache ?s1 = od_delitem (fst p) d0 @ [(F, g)]"
      using "1.prems"(1) d old neq by (simp add: od_delitem_def)
    moreover have "F \<notin> set (od_keys (od_delitem (fst p) d0))"
      using "1.prems"(2) d by (simp add: od_keys_delitem)
    ultimately show ?thesis using "1.IH" [OF True refl] by (simp add: step)
  next
    case False
    with "1.prems" show ?thesis by (simp add: evict_lru_noop)
  qed
qed

lemma evict_lru_distinct:
  "distinct (od_keys (frame_cache s)) \<Longrightarrow>
   frame_cache (evict_lru s) = drop (length (frame_cache s) - max_cache_size) (frame_cache s)"
proof (induction s rule: evict_lru.induct)
  case (1 s)
  show ?case
  proof (cases "max_cache_size < length (frame_cache s)")
    case True
    let ?old = "hd (od_keys (frame_cache s))"
    let ?s1 = "evict_frame ?old s"
    have step: "evict_lru s = evict_lru ?s1" using True by (rule evict_lru_step)
    from True obtain p d where pd: "frame_cache s = p # d" by (cases "frame_cache s") auto
    have del: "od_delitem ?old (frame_cache s) = d"
      using pd "1.prems" by (simp add: od_delitem_Cons od_delitem_absent)
    have "distinct (od_keys (frame_cache ?s1))" using del pd "1.prems" by simp
    from "1.IH" [OF True refl this]
    have "frame_cache (evict_lru s) = drop (length d - max_cache_size) d"
      by (simp add: step del)
    also have "\<dots> = drop (length (frame_cache s) - max_cache_size) (frame_cache s)"
      using True pd by (simp add: Suc_diff_le)
    finally show ?thesis .
  next
    case False
    then show ?thesis by (simp add: evict_lru_noop)
  qed
qed

lemmas eval_defs = tri_verts_def tri_indices_def record_batch_def initial_cache_def
  add_to_cache_def is_empty_data_def od_move_to_end_def od_get_def od_delitem_def od_keys_def
  od_contains_def batch_del_def max_cache_size_def is_frame_cached_def mark_frame_dirty_def
  mark_all_dirty_def get_batch_def get_shader_def clear_cache_def run_adds_def adds_of_def
  cache_of_frames_def evict_frame_def

section \<open>Facts about \<open>add_to_cache\<close> and \<open>get_batch\<close>\<close>

lemma od_get_setitem: "od_get (od_setitem k v d) k = Some v"
  by (induction d) (simp_all add: od_get_def)

lemma od_delitem_setitem: "od_delitem k (od_setitem k v d) = od_delitem k d"
  by (induction d) (simp_all add: od_delitem_def)

lemma od_move_setitem: "od_move_to_end k (od_setitem k v d) = od_delitem k d @ [(k, v)]"
  by (simp add: od_move_to_end_def od_get_setitem od_delitem_setitem)

lemma od_get_None: "od_get d k = None \<longleftrightarrow> k \<notin> set (od_keys d)"
  by (simp add: od_get_def od_keys_def map_of_eq_None_iff)

lemma od_get_last: "k \<notin> set (od_keys d) \<Longrightarrow> od_get (d @ [(k, v)]) k = Some v"
  by (induction d) (auto simp: od_get_def)

lemma od_get_const_map:
  "od_get (map (\<lambda>f. (f, g)) fs) k = (if k \<in> set fs then Some g else None)"
  by (induction fs) (simp_all add: od_get_def)

lemma add_rejected: "\<not> add_accepts np verts indices \<Longrightarrow> add_to_cache np f verts indices p s = s"
  by (auto simp: add_accepts_def add_to_cache_def split: option.splits)

lemma add_accepted:
  "add_accepts np verts indices \<Longrightarrow>
   add_to_cache np f verts indices p s = evict_lru (add_stored f (the verts, the indices, p) s)"
  by (auto simp: add_accepts_def add_to_cache_def add_stored_def od_move_setitem Let_def
      split: option.splits)

lemma add_stored_fields [simp]:
  "frame_cache (add_stored f g s) = od_delitem f (frame_cache s) @ [(f, g)]"
  "dirty_frames (add_stored f g s) = dirty_frames s - {f}"
  "batch_cache (add_stored f g s) = (batch_cache s)(f := None)"
  "cache_misses (add_stored f g s) = cache_misses s + 1"
  "cache_hits (add_stored f g s) = cache_hits s"
  by (simp_all add: add_stored_def)

lemma add_length:
  "length (frame_cache s) \<le> max_cache_size \<Longrightarrow>
   length (frame_cache (add_to_cache np f verts indices p s)) \<le> max_cache_size"
  by (cases "add_accepts np verts indices") (simp_all add: add_rejected add_accepted evict_lru_length)

lemma run_adds_length:
  "length (frame_cache s) \<le> max_cache_size \<Longrightarrow>
   length (frame_cache (run_adds np calls s)) \<le> max_cache_size"
proof (induction calls arbitrary: s)
  case Nil
  then show ?case by (simp add: run_adds_def)
next
  case (Cons c calls)
  obtain f vs ix p where c: "c = (f, vs, ix, p)" by (cases c) auto
  have "run_adds np (c # calls) s = run_adds np calls (add_to_cache np f vs ix p s)"
    by (simp add: run_adds_def c)
  with Cons show ?case by (simp add: add_length)
qed

lemma add_evicted:
  assumes "od_contains f (frame_cache s)"
    and "\<not> od_contains f (frame_cache (add_to_cache np frame verts indices p s))"
  shows "batch_cache (add_to_cache np frame verts indices p s) f = None"
proof (cases "add_accepts np verts indices")
  case False
  with assms show ?thesis by (simp add: add_rejected)
next
  case True
  let ?s5 = "add_stored frame (the verts, the indices, p) s"
  have eq: "add_to_cache np frame verts indices p s = evict_lru ?s5"
    using True by (rule add_accepted)
  have "f \<in> set (od_keys (frame_cache ?s5))"
    using assms(1) by (auto simp: od_contains_def od_keys_delitem)
  moreover have "f \<notin> set (od_keys (frame_cache (evict_lru ?s5)))"
    using assms(2) by (simp add: od_contains_def eq)
  ultimately show ?thesis by (simp add: eq evict_lru_evicted)
qed

lemma add_keeps_frame:
  assumes "add_accepts np verts indices"
  shows "\<exists>d'. frame_cache (add_to_cache np f verts indices p s) = d' @ [(f, (the verts, the indices, p))]
            \<and> f \<notin> set (od_keys d')"
proof -
  let ?s5 = "add_stored f (the verts, the indices, p) s"
  have "frame_cache ?s5 = od_delitem f (frame_cache s) @ [(f, (the verts, the indices, p))]"
    by simp
  moreover have "f \<notin> set (od_keys (od_delitem f (frame_cache s)))"
    by (simp add: od_keys_delitem)
  ultimately show ?thesis
    using evict_lru_keeps_last [of ?s5] by (simp add: add_accepted [OF assms])
qed

lemma add_dirty:
  "add_accepts np verts indices \<Longrightarrow>
   dirty_frames (add_to_cache np f verts indices p s) = dirty_frames s - {f}"
  by (simp add: add_accepted evict_lru_fields)

lemma add_batch_frame:
  "add_accepts np verts indices \<Longrightarrow> batch_cache (add_to_cache np f verts indices p s) f = None"
  using evict_lru_batch [of "add_stored f (the verts, the indices, p) s" f]
  by (auto simp: add_accepted)

lemma add_dirty_subset: "dirty_frames (add_to_cache np f verts indices p s) \<subseteq> dirty_frames s"
  by (cases "add_accepts np verts indices") (auto simp: add_rejected add_dirty)

lemma add_batch_cases:
  "batch_cache (add_to_cache np f verts indices p s) g = None \<or>
   batch_cache (add_to_cache np f verts indices p s) g = batch_cache s g"
proof (cases "add_accepts np verts indices")
  case True
  with evict_lru_batch [of "add_stored f (the verts, the indices, p) s" g]
  show ?thesis by (auto simp: add_accepted split: if_splits)
next
  case False
  then show ?thesis by (simp add: add_rejected)
qed

lemma add_keeps_dirty_of_evicted:
  assumes "od_contains f (frame_cache s)"
    and "\<not> od_contains f (frame_cache (add_to_cache np frame verts indices p s))"
    and "f \<in> dirty_frames s"
  shows "f \<in> dirty_frames (add_to_cache np frame verts indices p s)"
proof (cases "add_accepts np verts indices")
  case False
  with assms show ?thesis by (simp add: add_rejected)
next
  case True
  from add_keeps_frame [OF True, of frame p s]
  have "od_contains frame (frame_cache (add_to_cache np frame verts indices p s))"
    by (auto simp: od_contains_def)
  with assms(2) have "f \<noteq> frame" by auto
  with assms(3) True show ?thesis by (simp add: add_dirty)
qed

lemma add_empty_vertices_noop: "py_len vs = 0 \<Longrightarrow> add_to_cache np f (Some vs) indices p s = s"
  by (cases vs) (auto simp: add_to_cache_def is_empty_data_def split: option.splits)

lemma add_empty_indices_noop_without_numpy:
  "py_len ix = 0 \<Longrightarrow> add_to_cache False f verts (Some ix) p s = s"
  by (auto simp: add_to_cache_def is_empty_data_def split: option.splits)

lemma get_batch_frame_cache [simp]: "frame_cache (snd (get_batch bfs np f s)) = frame_cache s"
  by (auto simp: get_batch_def get_shader_def split: option.splits prod.splits)

lemma get_batch_dirty [simp]: "dirty_frames (snd (get_batch bfs np f s)) = dirty_frames s"
  by (auto simp: get_batch_def get_shader_def split: option.splits prod.splits)

lemma add_frame_cache_distinct:
  assumes "distinct (od_keys (frame_cache s))" and "add_accepts np verts indices"
  shows "frame_cache (add_to_cache np f verts indices p s) =
         drop (Suc (length (od_delitem f (frame_cache s))) - max_cache_size)
           (od_delitem f (frame_cache s) @ [(f, (the verts, the indices, p))])"
proof -
  let ?s5 = "add_stored f (the verts, the indices, p) s"
  have "distinct (od_keys (frame_cache ?s5))"
    using assms(1) by (simp add: od_keys_delitem)
  from evict_lru_distinct [OF this] show ?thesis
    by (simp add: add_accepted [OF assms(2)])
qed

lemma run_adds_snoc:
  "run_adds np (calls @ [(f, vs, ix, p)]) s = add_to_cache np f vs ix p (run_adds np calls s)"
  by (simp add: run_adds_def)

lemma run_adds_fresh:
  assumes "\<not> is_empty_data np vs ix" and "frame_cache s = []"
  shows "distinct fs \<Longrightarrow> length fs \<le> max_cache_size \<Longrightarrow>
     frame_cache (run_adds np (adds_of vs ix p fs) s) = map (\<lambda>f. (f, (vs, ix, p))) fs"
proof (induction fs rule: rev_induct)
  case Nil
  show ?case using assms(2) by (simp add: run_adds_def adds_of_def)
next
  case (snoc f fs)
  let ?s = "run_adds np (adds_of vs ix p fs) s"
  have fc: "frame_cache ?s = map (\<lambda>f. (f, (vs, ix, p))) fs" using snoc by simp
  have keys: "od_keys (frame_cache ?s) = fs" by (simp add: fc od_keys_def comp_def)
  have acc: "add_accepts np (Some vs) (Some ix)" using assms(1) by (simp add: add_accepts_def)
  have dist: "distinct (od_keys (frame_cache ?s))" using snoc.prems keys by simp
  have fresh: "od_delitem f (frame_cache ?s) = frame_cache ?s"
    using snoc.prems keys by (simp add: od_delitem_absent)
  have "run_adds np (adds_of vs ix p (fs @ [f])) s
          = add_to_cache np f (Some vs) (Some ix) p ?s"
    by (simp add: adds_of_def run_adds_snoc)
  then show ?case
    using add_frame_cache_distinct [OF dist acc, of f p] snoc.prems fresh fc by simp
qed

lemma run_adds_clean:
  "dirty_frames s = {} \<Longrightarrow> batch_cache s = Map.empty \<Longrightarrow>
   dirty_frames (run_adds np calls s) = {} \<and> batch_cache (run_adds np calls s) = Map.empty"
proof (induction calls rule: rev_induct)
  case Nil
  then show ?case by (simp add: run_adds_def)
next
  case (snoc c calls)
  obtain f vs ix p where c: "c = (f, vs, ix, p)" by (cases c) auto
  let ?s = "run_adds np calls s"
  have "dirty_frames (add_to_cache np f vs ix p ?s) = {}"
    using add_dirty_subset [of np f vs ix p ?s] snoc by simp
  moreover have "batch_cache (add_to_cache np f vs ix p ?s) = Map.empty"
    using add_batch_cases [of np f vs ix p ?s] snoc by (auto simp: fun_eq_iff)
  ultimately show ?case by (simp add: c run_adds_snoc)
qed

lemma full_then_add:
  assumes ne: "\<not> is_empty_data np vs ix"
    and fs: "distinct fs" "length fs = max_cache_size" "new \<notin> set fs"
    and fc: "frame_cache s = map (\<lambda>f. (f, (vs, ix, p))) fs"
  shows "od_keys (frame_cache (add_to_cache np new (Some vs) (Some ix) p s)) = tl fs @ [new]"
proof -
  have keys: "od_keys (frame_cache s) = fs" by (simp add: fc od_keys_def comp_def)
  have acc: "add_accepts np (Some vs) (Some ix)" using ne by (simp add: add_accepts_def)
  have fresh: "od_delitem new (frame_cache s) = frame_cache s"
    using fs keys by (simp add: od_delitem_absent)
  have "frame_cache (add_to_cache np new (Some vs) (Some ix) p s)
          = drop 1 (frame_cache s @ [(new, (vs, ix, p))])"
    using add_frame_cache_distinct [of s np "Some vs" "Some ix" new p] acc fs keys fresh fc
    by simp
  moreover have "fs \<noteq> []" using fs(2) by (auto simp: max_cache_size_def)
  ultimately show ?thesis
    using keys by (cases fs) (simp_all add: fc od_keys_def comp_def drop_Suc)
qed

section \<open>Facts about distance eviction\<close>

lemma fold_collect: "fold (\<lambda>x acc. if P x then acc @ [x] else acc) xs acc = acc @ filter P xs"
  by (induction xs arbitrary: acc) simp_all

lemma fold_evict_frame_cache:
  "frame_cache (fold evict_frame rs s) = filter (\<lambda>p. fst p \<notin> set rs) (frame_cache s)"
proof (induction rs arbitrary: s)
  case Nil
  show ?case by simp
next
  case (Cons r rs)
  have "filter (\<lambda>p. fst p \<notin> set rs) (filter (\<lambda>p. fst p \<noteq> r) (frame_cache s))
      = filter (\<lambda>p. fst p \<notin> set (r # rs)) (frame_cache s)"
    by (simp add: conj_commute)
  then show ?case by (simp add: Cons od_delitem_def)
qed

lemma fold_evict_batch_cache:
  "batch_cache (fold evict_frame rs s) = (\<lambda>f. if f \<in> set rs then None else batch_cache s f)"
  by (induction rs arbitrary: s) (auto simp: fun_eq_iff)

lemma fold_evict_dirty: "dirty_frames (fold evict_frame rs s) = dirty_frames s"
  by (induction rs arbitrary: s) simp_all

section \<open>Dirty frames have no batch\<close>

lemma clean_initial: "clean_batches initial_cache"
  by (simp add: clean_batches_def initial_cache_def)

lemma clean_clear: "clean_batches (clear_cache s)"
  by (simp add: clean_batches_def clear_cache_def)

lemma clean_mark_frame_dirty: "clean_batches s \<Longrightarrow> clean_batches (mark_frame_dirty f s)"
  by (auto simp: clean_batches_def mark_frame_dirty_def split: if_splits)

lemma clean_mark_all_dirty: "clean_batches (mark_all_dirty s)"
  by (simp add: clean_batches_def mark_all_dirty_def)

lemma clean_evict_frame: "clean_batches s \<Longrightarrow> clean_batches (evict_frame f s)"
  by (auto simp: clean_batches_def split: if_splits)

lemma clean_get_batch: "clean_batches s \<Longrightarrow> clean_batches (snd (get_batch bfs np f s))"
  by (auto simp: clean_batches_def get_batch_def get_shader_def
      split: option.splits prod.splits if_splits)

lemma clean_add:
  assumes "clean_batches s"
  shows "clean_batches (add_to_cache np f verts indices p s)"
proof -
  let ?s' = "add_to_cache np f verts indices p s"
  have "g \<notin> dom (batch_cache ?s')" if "g \<in> dirty_frames ?s'" for g
  proof -
    from that add_dirty_subset [of np f verts indices p s] have "g \<in> dirty_frames s" by auto
    with assms have "batch_cache s g = None" by (auto simp: clean_batches_def)
    with add_batch_cases [of np f verts indices p s g] show ?thesis by (auto simp: domIff)
  qed
  then show ?thesis by (auto simp: clean_batches_def)
qed

lemma clean_invalidate: "clean_batches s \<Longrightarrow> clean_batches (invalidate_frames_near c r s)"
proof -
  have "clean_batches s \<Longrightarrow>
      clean_batches (fold (\<lambda>frame s'. if \<bar>frame - c\<bar> \<le> r then mark_frame_dirty frame s' else s') xs s)"
    for xs
    by (induction xs arbitrary: s) (simp_all add: clean_mark_frame_dirty)
  then show "clean_batches s \<Longrightarrow> clean_batches (invalidate_frames_near c r s)"
    by (simp add: invalidate_frames_near_def)
qed

lemma clean_evict_distant: "clean_batches s \<Longrightarrow> clean_batches (evict_distant_frames c r s)"
proof -
  have "clean_batches s \<Longrightarrow> clean_batches (fold evict_frame xs s)" for xs
    by (induction xs arbitrary: s) (simp_all add: clean_evict_frame)
  then show "clean_batches s \<Longrightarrow> clean_batches (evict_distant_frames c r s)"
    by (simp add: evict_distant_frames_def Let_def)
qed

lemma clean_apply_op: "clean_batches s \<Longrightarrow> clean_batches (apply_op bfs np op s)"
  by (cases op)
    (simp_all add: clean_add clean_get_batch clean_mark_frame_dirty clean_mark_all_dirty
      clean_invalidate clean_evict_distant clean_clear)

lemma clean_run_ops: "clean_batches s \<Longrightarrow> clean_batches (run_ops bfs np ops s)"
  unfolding run_ops_def by (induction ops arbitrary: s) (simp_all add: clean_apply_op)

section \<open>The sample caches\<close>

lemma upto_1_500: "[1..500] = 1 # [2..500]"
  by (subst upto.simps) simp

lemma sample_not_empty: "\<not> is_empty_data True tri_verts tri_indices"
  by (simp add: is_empty_data_def tri_verts_def)

lemma full_cache_frames:
  "frame_cache full_cache = map (\<lambda>f. (f, (tri_verts, tri_indices, ''TRIS''))) [1..500]"
  unfolding full_cache_def cache_of_frames_def
  by (rule run_adds_fresh [OF sample_not_empty])
    (simp_all add: max_cache_size_def initial_cache_def)

lemma full_cache_clean: "dirty_frames full_cache = {} \<and> batch_cache full_cache = Map.empty"
  unfolding full_cache_def cache_of_frames_def
  by (rule run_adds_clean) (simp_all add: initial_cache_def)

lemma full_cache_get: "od_get (frame_cache full_cache) 1 = Some (tri_verts, tri_indices, ''TRIS'')"
  unfolding full_cache_frames od_get_const_map by simp

lemma touched_full_cache_batch:
  "batch_cache touched_full_cache 1 = Some (''TRIS'', to_list tri_verts, to_list tri_indices)"
  using full_cache_clean full_cache_get
  by (simp add: touched_full_cache_def get_batch_def get_shader_def record_batch_def
      tri_verts_def tri_indices_def split: option.splits)

lemma touched_full_cache_frames: "frame_cache touched_full_cache = frame_cache full_cache"
  by (simp add: touched_full_cache_def)

lemma overflowed_cache_keys: "od_keys (frame_cache overflowed_cache) = [2..500] @ [501]"
proof -
  have "od_keys (frame_cache overflowed_cache) = tl [1..500] @ [501]"
    unfolding overflowed_cache_def
    by (rule full_then_add [OF sample_not_empty])
      (simp_all add: max_cache_size_def touched_full_cache_frames full_cache_frames)
  then show ?thesis unfolding upto_1_500 by simp
qed

section \<open>Facts about the scheduler\<close>

lemma py_range_pos:
  "0 < step \<Longrightarrow>
   py_range step (la + 1) step = Inr (map (\<lambda>k. (int k + 1) * step) [0..<nat (la div step)])"
  by (simp add: py_range_def algebra_simps)

lemma fold_append_if:
  "fold (\<lambda>i frames. if P i then frames @ [g i] else frames) xs acc = acc @ map g (filter P xs)"
  by (induction xs arbitrary: acc) simp_all

lemma steps_member:
  assumes "0 < (step::int)"
  shows "i \<in> set (map (\<lambda>k. (int k + 1) * step) [0..<nat (la div step)])
         \<longleftrightarrow> (\<exists>k\<ge>1. i = k * step \<and> k * step \<le> la)"
proof
  assume "i \<in> set (map (\<lambda>k. (int k + 1) * step) [0..<nat (la div step)])"
  then obtain n where n: "n < nat (la div step)" "i = (int n + 1) * step" by auto
  have "int n + 1 \<le> la div step" using n(1) by linarith
  then have "(int n + 1) * step \<le> (la div step) * step"
    using assms by (simp add: mult_right_mono)
  also have "\<dots> \<le> la"
    using assms by (metis mult.commute pos_mod_sign mult_div_mod_eq le_add_same_cancel1)
  finally have "(int n + 1) * step \<le> la" .
  with n(2) show "\<exists>k\<ge>1. i = k * step \<and> k * step \<le> la"
    by (intro exI [of _ "int n + 1"]) simp
next
  assume "\<exists>k\<ge>1. i = k * step \<and> k * step \<le> la"
  then obtain k where k: "1 \<le> k" "i = k * step" "k * step \<le> la" by auto
  have "k \<le> la div step"
  proof (rule ccontr)
    assume "\<not> k \<le> la div step"
    then have "la div step + 1 \<le> k" by simp
    then have "(la div step + 1) * step \<le> k * step"
      using assms by (simp add: mult_right_mono)
    moreover have "la < (la div step + 1) * step"
    proof -
      have "(la div step + 1) * step = step * (la div step) + step"
        by (simp add: algebra_simps)
      moreover have "step * (la div step) + la mod step = la" by simp
      moreover have "la mod step < step" using assms by simp
      ultimately show ?thesis by linarith
    qed
    ultimately show False using k(3) by linarith
  qed
  with k(1) have "nat (k - 1) < nat (la div step)" by linarith
  moreover have "i = (int (nat (k - 1)) + 1) * step" using k by simp
  ultimately show "i \<in> set (map (\<lambda>k. (int k + 1) * step) [0..<nat (la div step)])"
    by (auto intro!: image_eqI [of _ _ "nat (k - 1)"])
qed

lemma get_precache_frames_eq:
  assumes "has_settings w" and "1 \<le> frame_step (onion_skin_settings w)"
  shows "get_precache_frames w direction
     = Inr (take 10 (sort_key (\<lambda>f. \<bar>f - frame_current w\<bar>) (all_candidates w direction)))"
proof -
  have pos: "0 < frame_step (onion_skin_settings w)" using assms(2) by simp
  show ?thesis
    using assms(1) py_range_pos [OF pos, of "look_ahead w"]
    by (simp add: get_precache_frames_def all_candidates_def Let_def fold_append_if
        look_ahead_def)
qed

lemma forward_member:
  assumes "\<And>i. i \<in> set steps \<longleftrightarrow> (\<exists>k\<ge>1. i = k * st \<and> k * st \<le> (la::int))"
  shows "f \<in> set (map (\<lambda>i. c + i) (filter (\<lambda>i. c + i \<le> re \<and> \<not> Q (c + i)) steps))
     \<longleftrightarrow> (\<not> Q f \<and> (\<exists>k\<ge>1. k * st \<le> la \<and> f = c + k * st \<and> f \<le> re))"
  (is "?L \<longleftrightarrow> ?R")
proof
  assume ?L
  then obtain i where i: "i \<in> set steps" "c + i \<le> re" "\<not> Q (c + i)" "f = c + i" by auto
  from i(1) obtain k where "1 \<le> k" "i = k * st" "k * st \<le> la" using assms by blast
  with i show ?R by auto
next
  assume ?R
  then obtain k where k: "\<not> Q f" "1 \<le> k" "k * st \<le> la" "f = c + k * st" "f \<le> re" by auto
  then have "k * st \<in> set steps" using assms by blast
  with k show ?L by auto
qed

lemma backward_member:
  assumes "\<And>i. i \<in> set steps \<longleftrightarrow> (\<exists>k\<ge>1. i = k * st \<and> k * st \<le> (la::int))"
  shows "f \<in> set (map (\<lambda>i. c - i) (filter (\<lambda>i. rs \<le> c - i \<and> \<not> Q (c - i)) steps))
     \<longleftrightarrow> (\<not> Q f \<and> (\<exists>k\<ge>1. k * st \<le> la \<and> f = c - k * st \<and> rs \<le> f))"
  (is "?L \<longleftrightarrow> ?R")
proof
  assume ?L
  then obtain i where i: "i \<in> set steps" "rs \<le> c - i" "\<not> Q (c - i)" "f = c - i" by auto
  from i(1) obtain k where "1 \<le> k" "i = k * st" "k * st \<le> la" using assms by blast
  with i show ?R by auto
next
  assume ?R
  then obtain k where k: "\<not> Q f" "1 \<le> k" "k * st \<le> la" "f = c - k * st" "rs \<le> f" by auto
  then have "k * st \<in> set steps" using assms by blast
  with k show ?L by auto
qed

lemma all_candidates_member:
  assumes "1 \<le> frame_step (onion_skin_settings w)"
  shows "f \<in> set (all_candidates w direction) \<longleftrightarrow> precache_candidate w direction f"
proof -
  have pos: "0 < frame_step (onion_skin_settings w)" using assms by simp
  note mem = steps_member [OF pos, of _ "look_ahead w"]
  note fw = forward_member [OF mem, of f "frame_current w" "snd (get_frame_range w)"
      "\<lambda>g. is_frame_cached g (cache w)"]
  note bw = backward_member [OF mem, of f "frame_current w" "fst (get_frame_range w)"
      "\<lambda>g. is_frame_cached g (cache w)"]
  show ?thesis
    unfolding all_candidates_def precache_candidate_def Let_def set_append Un_iff
    by (cases "0 \<le> direction"; cases "direction \<le> 0") (auto simp only: fw bw if_True if_False list.set empty_iff)
qed

lemma take_sorted_prefix:
  assumes "sorted (map key xs)" and "g \<in> set xs" and "g \<notin> set (take n xs)"
  shows "length (take n xs) = n \<and> (\<forall>f\<in>set (take n xs). key f \<le> key g)"
proof -
  have "set xs = set (take n xs) \<union> set (drop n xs)"
    by (metis append_take_drop_id set_append)
  with assms(2,3) have g: "g \<in> set (drop n xs)" by auto
  then have "drop n xs \<noteq> []" by auto
  then have len: "length (take n xs) = n" by simp
  have "sorted (map key (take n xs) @ map key (drop n xs))"
    using assms(1) by (metis append_take_drop_id map_append)
  then have "\<forall>a\<in>set (map key (take n xs)). \<forall>b\<in>set (map key (drop n xs)). a \<le> b"
    by (simp add: sorted_append)
  with g have "\<forall>f\<in>set (take n xs). key f \<le> key g" by auto
  with len show ?thesis by simp
qed

lemma candidate_in_range:
  assumes "1 \<le> frame_step (onion_skin_settings w)"
    and "precache_candidate w direction f"
    and "fst (get_frame_range w) \<le> frame_current w"
    and "frame_current w \<le> snd (get_frame_range w)"
  shows "fst (get_frame_range w) \<le> f \<and> f \<le> snd (get_frame_range w)"
proof -
  from assms(2) obtain k where k: "1 \<le> k"
    and cases: "f = frame_current w + k * frame_step (onion_skin_settings w)
                  \<and> f \<le> snd (get_frame_range w)
                \<or> f = frame_current w - k * frame_step (onion_skin_settings w)
                  \<and> fst (get_frame_range w) \<le> f"
    by (auto simp: precache_candidate_def)
  have "0 \<le> k * frame_step (onion_skin_settings w)" using k assms(1) by simp
  with cases assms(3,4) show ?thesis by auto
qed

lemma precache_world_frames:
  "get_precache_frames precache_world 0 = Inr [102, 98, 104, 96, 106, 94, 108, 92, 110, 90]"
  by code_simp

lemma restore_frame_current: "frame_current (snd (restore_frame f w)) = f"
  by (simp add: restore_frame_def frame_set_def Let_def)

lemma restore_frame_returns: "fst (restore_frame f w) \<noteq> Raised e"
  by (simp add: restore_frame_def Let_def)

lemma cache_pending_frame_returned:
  assumes "\<forall>e. fst (cache_pending_frame cf w) = Raised e \<longrightarrow> is_exception e"
  shows "frame_current (snd (cache_pending_frame cf w)) = frame_current w"
proof (cases "cf (hd (pending_frames w)) (w\<lparr>pending_frames := tl (pending_frames w)\<rparr>)")
  case (Pair out w2)
  show ?thesis
  proof (cases out)
    case (Returned r)
    with Pair show ?thesis
      by (simp add: cache_pending_frame_def Let_def restore_frame_current)
  next
    case (Raised e)
    show ?thesis
    proof (cases "is_exception e")
      case True
      with Pair Raised show ?thesis
        by (simp add: cache_pending_frame_def Let_def restore_frame_current)
    next
      case False
      with Pair Raised have "fst (cache_pending_frame cf w) = Raised e"
        by (simp add: cache_pending_frame_def Let_def)
      with assms False show ?thesis by blast
    qed
  qed
qed

lemma cache_pending_frame_raised:
  assumes "fst (cache_pending_frame cf w) = Raised e"
  shows "fst (cf (hd (pending_frames w)) (w\<lparr>pending_frames := tl (pending_frames w)\<rparr>)) = Raised e"
  using assms restore_frame_returns
  by (cases "cf (hd (pending_frames w)) (w\<lparr>pending_frames := tl (pending_frames w)\<rparr>)")
    (auto simp: cache_pending_frame_def Let_def split: outcome.splits if_splits)

lemma get_precache_frames_error:
  "get_precache_frames w d = Inl e \<Longrightarrow> is_exception e"
  by (auto simp: get_precache_frames_def py_range_def Let_def split: if_splits sum.splits)

section \<open>Recency of eviction\<close>

text \<open>
  What holds of the order of eviction: starting from an empty frame cache, after inserting
  as many distinct frames as the cache holds, the frames are kept in insertion order, and
  inserting one more evicts exactly the first-inserted frame.
\<close>

lemma overflow_evicts_first_inserted:
  assumes "\<not> is_empty_data np vs ix" and "frame_cache s0 = []"
    and "distinct fs" and "length fs = max_cache_size" and "new \<notin> set fs"
  shows "od_keys (frame_cache (run_adds np (adds_of vs ix p fs) s0)) = fs \<and>
         od_keys (frame_cache (run_adds np (adds_of vs ix p (fs @ [new])) s0)) = tl fs @ [new]"
proof -
  let ?full = "run_adds np (adds_of vs ix p fs) s0"
  have fc: "frame_cache ?full = map (\<lambda>f. (f, (vs, ix, p))) fs"
    using run_adds_fresh [OF assms(1,2), of fs p] assms(3,4) by simp
  have "od_keys (frame_cache ?full) = fs"
    by (simp add: fc od_keys_def comp_def)
  moreover have "od_keys (frame_cache (add_to_cache np new (Some vs) (Some ix) p ?full))
      = tl fs @ [new]"
    using assms fc by (intro full_then_add) simp_all
  ultimately show ?thesis by (simp add: adds_of_def run_adds_snoc)
qed

text \<open>
  Claim C1 at the input where the code departs from it. \<open>add_to_cache\<close> promotes a frame
  that is added again (with the frames 1 and 2 stored, adding frame 1 again makes frame 2 the
  oldest), but \<open>get_batch\<close> does not: in the cache filled with the frames 1 to 500 in
  increasing order, \<open>get_batch\<close> serves frame 1 with a batch, and adding frame 501 afterwards
  evicts frame 1 all the same, while the frames 2 to 500, which were never served, stay.
\<close>

theorem getbatch_does_not_promote:
  "od_keys (frame_cache (cache_of_frames [1, 2])) = [1, 2] \<and>
   od_keys (frame_cache (add_to_cache True 1 (Some tri_verts) (Some tri_indices) ''TRIS''
      (cache_of_frames [1, 2]))) = [2, 1] \<and>
   od_keys (frame_cache full_cache) = [1..500] \<and>
   fst (get_batch record_batch True 1 full_cache)
      = Returned (Some (''TRIS'', to_list tri_verts, to_list tri_indices)) \<and>
   od_keys (frame_cache touched_full_cache) = [1..500] \<and>
   od_keys (frame_cache overflowed_cache) = [2..500] @ [501] \<and>
   \<not> od_contains 1 (frame_cache overflowed_cache) \<and>
   od_contains 2 (frame_cache overflowed_cache)"
proof -
  have two: "od_keys (frame_cache (cache_of_frames [1, 2])) = [1, 2]"
    by (simp add: eval_defs evict_lru.simps)
  have again: "od_keys (frame_cache (add_to_cache True 1 (Some tri_verts) (Some tri_indices)
      ''TRIS'' (cache_of_frames [1, 2]))) = [2, 1]"
    by (simp add: eval_defs evict_lru.simps)
  have keys: "od_keys (frame_cache full_cache) = [1..500]"
    unfolding full_cache_frames by (simp add: od_keys_def comp_def)
  have touched: "od_keys (frame_cache touched_full_cache) = [1..500]"
    unfolding touched_full_cache_frames by (rule keys)
  have served: "fst (get_batch record_batch True 1 full_cache)
      = Returned (Some (''TRIS'', to_list tri_verts, to_list tri_indices))"
    using full_cache_clean full_cache_get
    by (simp add: get_batch_def get_shader_def record_batch_def tri_verts_def tri_indices_def
        split: option.splits)
  have gone: "\<not> od_contains 1 (frame_cache overflowed_cache)"
    by (simp add: od_contains_def overflowed_cache_keys)
  have kept: "od_contains 2 (frame_cache overflowed_cache)"
    by (simp add: od_contains_def overflowed_cache_keys)
  from two again keys served touched overflowed_cache_keys gone kept show ?thesis by blast
qed

section \<open>Empty geometry\<close>

text \<open>
  Claim C2 at the input where the code departs from it. With numpy present (as it is inside
  Blender), \<open>add_to_cache\<close> tests the vertices only: a call with three vertices and an empty
  index list stores the frame and counts a miss. Without numpy the same call is a no-op, as
  the claim says.
\<close>

theorem add_empty_indices_stored:
  "frame_cache (add_to_cache True 5 (Some tri_verts) (Some (PyList [])) ''TRIS''
      (initial_cache :: sample_cache)) = [(5, (tri_verts, PyList [], ''TRIS''))] \<and>
   cache_misses (add_to_cache True 5 (Some tri_verts) (Some (PyList [])) ''TRIS''
      (initial_cache :: sample_cache)) = 1 \<and>
   add_to_cache True 5 (Some tri_verts) (Some (PyList [])) ''TRIS'' (initial_cache :: sample_cache)
      \<noteq> initial_cache \<and>
   add_to_cache False 5 (Some tri_verts) (Some (PyList [])) ''TRIS'' (initial_cache :: sample_cache)
      = initial_cache"
proof -
  let ?s = "add_to_cache True 5 (Some tri_verts) (Some (PyList [])) ''TRIS''
      (initial_cache :: sample_cache)"
  have fc: "frame_cache ?s = [(5, (tri_verts, PyList [], ''TRIS''))]"
    by (simp add: eval_defs evict_lru.simps)
  have misses: "cache_misses ?s = 1"
    by (simp add: eval_defs evict_lru.simps)
  have "frame_cache ?s \<noteq> frame_cache (initial_cache :: sample_cache)"
    unfolding fc by (simp add: initial_cache_def)
  then have neq: "?s \<noteq> initial_cache" by auto
  have noop: "add_to_cache False 5 (Some tri_verts) (Some (PyList [])) ''TRIS''
      (initial_cache :: sample_cache) = initial_cache"
    by (simp add: add_empty_indices_noop_without_numpy)
  from fc misses neq noop show ?thesis by blast
qed


section \<open>Eviction by distance\<close>

text \<open>
  Claim C3, as the code has it. \<open>evict_distant_frames\<close> keeps exactly the entries whose
  distance from the center is at most the radius, in their order and with their geometry,
  drops the batches of the removed frames only, and leaves the dirty set alone. For the
  entries 10, 50, 100, 200 with center 100 and radius 60 the frames 50 and 100 remain.
\<close>

theorem evict_distant_exact:
  "frame_cache (evict_distant_frames c r s) = filter (\<lambda>p. \<bar>fst p - c\<bar> \<le> r) (frame_cache s) \<and>
   od_contains f (frame_cache (evict_distant_frames c r s))
     = (od_contains f (frame_cache s) \<and> \<bar>f - c\<bar> \<le> r) \<and>
   batch_cache (evict_distant_frames c r s)
     = (\<lambda>f. if od_contains f (frame_cache s) \<and> \<bar>f - c\<bar> > r then None else batch_cache s f) \<and>
   dirty_frames (evict_distant_frames c r s) = dirty_frames s"
proof -
  let ?rs = "filter (\<lambda>frame. \<bar>frame - c\<bar> > r) (od_keys (frame_cache s))"
  have eq: "evict_distant_frames c r s = fold evict_frame ?rs s"
    by (simp add: evict_distant_frames_def fold_collect)
  have "filter (\<lambda>p. fst p \<notin> set ?rs) (frame_cache s)
      = filter (\<lambda>p. \<bar>fst p - c\<bar> \<le> r) (frame_cache s)"
    by (rule filter_cong) (auto simp: od_keys_def)
  then have fc: "frame_cache (evict_distant_frames c r s)
      = filter (\<lambda>p. \<bar>fst p - c\<bar> \<le> r) (frame_cache s)"
    by (simp add: eq fold_evict_frame_cache)
  have "od_contains f (frame_cache (evict_distant_frames c r s))
     = (od_contains f (frame_cache s) \<and> \<bar>f - c\<bar> \<le> r)"
    unfolding fc by (auto simp: od_contains_def od_keys_def)
  moreover have "batch_cache (evict_distant_frames c r s)
     = (\<lambda>f. if od_contains f (frame_cache s) \<and> \<bar>f - c\<bar> > r then None else batch_cache s f)"
    by (auto simp: eq fold_evict_batch_cache od_contains_def fun_eq_iff)
  moreover have "dirty_frames (evict_distant_frames c r s) = dirty_frames s"
    by (simp add: eq fold_evict_dirty)
  ultimately show ?thesis using fc by simp
qed

theorem evict_distant_exact_witness:
  "od_keys (frame_cache (cache_of_frames [10, 50, 100, 200])) = [10, 50, 100, 200] \<and>
   od_keys (frame_cache (evict_distant_frames 100 60 (cache_of_frames [10, 50, 100, 200])))
     = [50, 100] \<and>
   \<not> od_contains 10 (frame_cache (evict_distant_frames 100 60 (cache_of_frames [10, 50, 100, 200])))"
proof -
  let ?s = "cache_of_frames [10, 50, 100, 200]"
  have fc: "frame_cache ?s = map (\<lambda>f. (f, (tri_verts, tri_indices, ''TRIS''))) [10, 50, 100, 200]"
    by (simp add: eval_defs evict_lru.simps)
  have after: "frame_cache (evict_distant_frames 100 60 ?s)
      = filter (\<lambda>p. \<bar>fst p - 100\<bar> \<le> 60) (frame_cache ?s)"
    using evict_distant_exact [of 100 60 ?s 10] by blast
  show ?thesis unfolding after fc by (simp add: od_keys_def od_contains_def)
qed

text \<open>
  The scenario of the claim fails: with the entries 40, 70, 100, 160, center 100 and radius
  50, frame 160 is at distance 60 like frame 40, and both are removed.
\<close>

theorem evict_distant_scenario_counterexample:
  "od_keys (frame_cache (cache_of_frames [40, 70, 100, 160])) = [40, 70, 100, 160] \<and>
   od_keys (frame_cache (evict_distant_frames 100 50 (cache_of_frames [40, 70, 100, 160])))
     = [70, 100] \<and>
   \<not> od_contains 160 (frame_cache (evict_distant_frames 100 50 (cache_of_frames [40, 70, 100, 160])))"
  by (simp add: eval_defs evict_lru.simps evict_distant_frames_def)

section \<open>Capacity\<close>

text \<open>
  Claim C4. From a state with at most \<open>max_cache_size\<close> (500) entries, the frame cache holds
  at most that many entries after a call of \<open>add_to_cache\<close> and after every prefix of a
  sequence of such calls; the eviction happens inside the call. A frame that a call evicts
  is gone from the frame cache and has no batch left.
\<close>

theorem capacity_invariant:
  "length (frame_cache s) \<le> max_cache_size \<Longrightarrow>
     max_cache_size = 500 \<and>
     length (frame_cache (add_to_cache np frame verts indices p s)) \<le> max_cache_size \<and>
     (\<forall>n. length (frame_cache (run_adds np (take n calls) s)) \<le> max_cache_size) \<and>
     (\<forall>f. od_contains f (frame_cache s) \<and>
          \<not> od_contains f (frame_cache (add_to_cache np frame verts indices p s)) \<longrightarrow>
          od_get (frame_cache (add_to_cache np frame verts indices p s)) f = None \<and>
          batch_cache (add_to_cache np frame verts indices p s) f = None)"
proof -
  assume bounded: "length (frame_cache s) \<le> max_cache_size"
  let ?s' = "add_to_cache np frame verts indices p s"
  have cap: "max_cache_size = 500" by (simp add: max_cache_size_def)
  have one: "length (frame_cache ?s') \<le> max_cache_size"
    using bounded by (rule add_length)
  have many: "\<forall>n. length (frame_cache (run_adds np (take n calls) s)) \<le> max_cache_size"
    using bounded by (simp add: run_adds_length)
  have gone: "\<forall>f. od_contains f (frame_cache s) \<and> \<not> od_contains f (frame_cache ?s') \<longrightarrow>
      od_get (frame_cache ?s') f = None \<and> batch_cache ?s' f = None"
    by (auto simp: add_evicted od_get_None od_contains_def)
  from cap one many gone show ?thesis by blast
qed

theorem capacity_invariant_witness:
  "length (frame_cache touched_full_cache) \<le> max_cache_size \<and>
   od_contains 1 (frame_cache touched_full_cache) \<and>
   batch_cache touched_full_cache 1 \<noteq> None \<and>
   \<not> od_contains 1 (frame_cache overflowed_cache) \<and>
   od_get (frame_cache overflowed_cache) 1 = None \<and>
   batch_cache overflowed_cache 1 = None \<and>
   length (frame_cache overflowed_cache) \<le> 500 \<and>
   length (frame_cache (run_adds True
      (take 1 (adds_of tri_verts tri_indices ''TRIS'' [501, 502])) touched_full_cache)) \<le> 500"
proof -
  have bounded: "length (frame_cache touched_full_cache) \<le> max_cache_size"
    by (simp add: touched_full_cache_frames full_cache_frames max_cache_size_def)
  have present: "od_contains 1 (frame_cache touched_full_cache)"
    by (simp add: touched_full_cache_frames full_cache_frames od_contains_def od_keys_def comp_def)
  have gone: "\<not> od_contains 1 (frame_cache overflowed_cache)"
    by (simp add: od_contains_def overflowed_cache_keys)
  have built: "batch_cache touched_full_cache 1 \<noteq> None"
    by (simp add: touched_full_cache_batch)
  from capacity_invariant [OF bounded, of True 501 "Some tri_verts" "Some tri_indices" "''TRIS''"
      "adds_of tri_verts tri_indices ''TRIS'' [501, 502]"]
    bounded present gone built
  show ?thesis unfolding overflowed_cache_def [symmetric]
    by (auto simp: max_cache_size_def)
qed

section \<open>Dirty precedence\<close>

text \<open>
  Claim C5. Marking a frame dirty that is present in the frame cache makes
  \<open>is_frame_cached\<close> false and \<open>get_batch\<close> return \<open>None\<close> (leaving the state as it is),
  while the frame stays in the frame cache, whose contents do not change. More generally a
  frame in the dirty set is never reported as cached and never served a batch, whatever the
  frame cache holds.
\<close>

theorem dirty_precedence:
  "(od_contains F (frame_cache s) \<longrightarrow>
      \<not> is_frame_cached F (mark_frame_dirty F s) \<and>
      get_batch bfs np F (mark_frame_dirty F s) = (Returned None, mark_frame_dirty F s) \<and>
      od_contains F (frame_cache (mark_frame_dirty F s)) \<and>
      frame_cache (mark_frame_dirty F s) = frame_cache s) \<and>
   (G \<in> dirty_frames t \<longrightarrow>
      \<not> is_frame_cached G t \<and> get_batch bfs np G t = (Returned None, t))"
  by (simp add: is_frame_cached_def mark_frame_dirty_def get_batch_def)

theorem dirty_precedence_witness:
  "od_contains 5 (frame_cache (cache_of_frames [5])) \<and>
   is_frame_cached 5 (cache_of_frames [5]) \<and>
   \<not> is_frame_cached 5 (mark_frame_dirty 5 (cache_of_frames [5])) \<and>
   get_batch record_batch True 5 (mark_frame_dirty 5 (cache_of_frames [5]))
     = (Returned None, mark_frame_dirty 5 (cache_of_frames [5])) \<and>
   od_contains 5 (frame_cache (mark_frame_dirty 5 (cache_of_frames [5]))) \<and>
   5 \<in> dirty_frames (mark_frame_dirty 5 (cache_of_frames [5]))"
proof -
  have present: "od_contains 5 (frame_cache (cache_of_frames [5]))"
    by (simp add: eval_defs evict_lru.simps)
  have cached: "is_frame_cached 5 (cache_of_frames [5])"
    by (simp add: eval_defs evict_lru.simps)
  have dirty: "5 \<in> dirty_frames (mark_frame_dirty 5 (cache_of_frames [5]))"
    by (simp add: mark_frame_dirty_def)
  from dirty_precedence [of 5 "cache_of_frames [5]" record_batch True 5
      "mark_frame_dirty 5 (cache_of_frames [5])"] present cached dirty
  show ?thesis by simp
qed

section \<open>Adding a dirty frame again\<close>

text \<open>
  Claim C6, as the code has it. For a dirty frame \<open>F\<close>, a call of \<open>add_to_cache\<close> with
  vertices and indices that are both non-empty returns a state in which \<open>F\<close> is not dirty,
  has no batch, is stored with the new geometry and is cached. If the indices are an array
  whenever the vertices are read as one, the next \<open>get_batch\<close> returns what the batch builder
  makes of the new vertices and indices. The call is one state transition, so nothing in
  between can be observed.
\<close>

theorem dirty_clear_on_readd:
  assumes "F \<in> dirty_frames s"
    and "py_len vs \<noteq> 0" and "py_len ix \<noteq> 0"
  shows "F \<notin> dirty_frames (add_to_cache np F (Some vs) (Some ix) p s) \<and>
         batch_cache (add_to_cache np F (Some vs) (Some ix) p s) F = None \<and>
         od_get (frame_cache (add_to_cache np F (Some vs) (Some ix) p s)) F = Some (vs, ix, p) \<and>
         is_frame_cached F (add_to_cache np F (Some vs) (Some ix) p s) \<and>
         ((np \<and> is_ndarray vs \<longrightarrow> is_ndarray ix) \<longrightarrow>
            fst (get_batch bfs np F (add_to_cache np F (Some vs) (Some ix) p s))
              = Returned (bfs (fst (get_shader (add_to_cache np F (Some vs) (Some ix) p s))) p
                            (to_list vs) (to_list ix)))"
proof -
  let ?s' = "add_to_cache np F (Some vs) (Some ix) p s"
  have acc: "add_accepts np (Some vs) (Some ix)"
    using assms(2,3) by (cases vs) (auto simp: add_accepts_def is_empty_data_def)
  have nd: "F \<notin> dirty_frames ?s'" using acc by (simp add: add_dirty)
  have nb: "batch_cache ?s' F = None" using acc by (rule add_batch_frame)
  from add_keeps_frame [OF acc, of F p s]
  obtain d' where d': "frame_cache ?s' = d' @ [(F, (vs, ix, p))]" "F \<notin> set (od_keys d')"
    by auto
  have get: "od_get (frame_cache ?s') F = Some (vs, ix, p)"
    using d' by (simp add: od_get_last)
  have cached: "is_frame_cached F ?s'"
    using nd d' by (simp add: is_frame_cached_def od_contains_def)
  have "fst (get_batch bfs np F ?s')
          = Returned (bfs (fst (get_shader ?s')) p (to_list vs) (to_list ix))"
    if "np \<and> is_ndarray vs \<longrightarrow> is_ndarray ix"
    using nd nb get that
    by (auto simp: get_batch_def domIff split: prod.splits option.splits)
  with nd nb get cached show ?thesis by simp
qed

theorem dirty_clear_on_readd_witness:
  "5 \<in> dirty_frames dirty_sample_cache \<and>
   \<not> is_frame_cached 5 dirty_sample_cache \<and>
   od_get (frame_cache dirty_sample_cache) 5 = Some (tri_verts, tri_indices, ''TRIS'') \<and>
   5 \<notin> dirty_frames (add_to_cache True 5 (Some moved_verts) (Some tri_indices) ''TRIS'' dirty_sample_cache) \<and>
   is_frame_cached 5 (add_to_cache True 5 (Some moved_verts) (Some tri_indices) ''TRIS'' dirty_sample_cache) \<and>
   fst (get_batch record_batch True 5
          (add_to_cache True 5 (Some moved_verts) (Some tri_indices) ''TRIS'' dirty_sample_cache))
     = Returned (Some (''TRIS'', [(2, 2, 2), (3, 2, 2), (2, 3, 2)], [[0, 1, 2]]))"
proof -
  have dirty: "5 \<in> dirty_frames dirty_sample_cache"
    by (simp add: dirty_sample_cache_def eval_defs evict_lru.simps)
  have old: "od_get (frame_cache dirty_sample_cache) 5 = Some (tri_verts, tri_indices, ''TRIS'')"
    by (simp add: dirty_sample_cache_def eval_defs evict_lru.simps)
  have uncached: "\<not> is_frame_cached 5 dirty_sample_cache"
    using dirty by (simp add: is_frame_cached_def)
  have v: "py_len moved_verts \<noteq> 0" by (simp add: moved_verts_def)
  have i: "py_len tri_indices \<noteq> 0" by (simp add: tri_indices_def)
  have k: "True \<and> is_ndarray moved_verts \<longrightarrow> is_ndarray tri_indices"
    by (simp add: tri_indices_def moved_verts_def)
  from dirty_clear_on_readd [OF dirty v i, of True "''TRIS''" record_batch] k dirty old uncached
  show ?thesis
    by (simp add: record_batch_def moved_verts_def tri_indices_def)
qed

text \<open>
  The claim as written fails when the vertices are an array and the indices a list:
  \<open>get_batch\<close> chooses the conversion by the vertices alone and calls \<open>indices.tolist()\<close>
  outside the \<open>try\<close> block. The add is accepted and the frame is cached, but the next
  \<open>get_batch\<close> raises \<open>AttributeError\<close> and builds nothing.
\<close>

theorem readd_mixed_containers_counterexample:
  "5 \<in> dirty_frames dirty_sample_cache \<and>
   py_len moved_verts_array \<noteq> 0 \<and>
   py_len tri_indices \<noteq> 0 \<and>
   is_frame_cached 5
     (add_to_cache True 5 (Some moved_verts_array) (Some tri_indices) ''TRIS'' dirty_sample_cache) \<and>
   fst (get_batch record_batch True 5
          (add_to_cache True 5 (Some moved_verts_array) (Some tri_indices) ''TRIS''
             dirty_sample_cache))
     = Raised AttributeError"
  by (simp add: dirty_sample_cache_def moved_verts_array_def eval_defs evict_lru.simps)

section \<open>Frames proposed for pre-caching\<close>

text \<open>
  What holds while the current frame is inside the frame range, for a scene with settings
  and a frame step of at least 1: \<open>get_precache_frames\<close> returns a list of at most 10 frames,
  sorted ascending by distance from the current frame. Every frame in it is not cached, lies
  a positive multiple of the frame step away from the current frame and within
  \<open>max(frames_before, frames_after) + 5\<close>, ahead for a direction \<open>\<ge> 0\<close> and behind for a
  direction \<open>\<le> 0\<close>, and is inside the frame range. A frame of that kind that is left out is
  at least as far away as each of the 10 that are in.
\<close>

lemma precache_frames_inside_range:
  assumes "has_settings w" and "1 \<le> frame_step (onion_skin_settings w)"
    and "fst (get_frame_range w) \<le> frame_current w"
    and "frame_current w \<le> snd (get_frame_range w)"
  shows "\<exists>fs. get_precache_frames w direction = Inr fs \<and>
           length fs \<le> 10 \<and>
           sorted (map (\<lambda>f. \<bar>f - frame_current w\<bar>) fs) \<and>
           (\<forall>f\<in>set fs. precache_candidate w direction f) \<and>
           (\<forall>g. precache_candidate w direction g \<and> g \<notin> set fs \<longrightarrow>
                length fs = 10 \<and> (\<forall>f\<in>set fs. \<bar>f - frame_current w\<bar> \<le> \<bar>g - frame_current w\<bar>)) \<and>
           (\<forall>f\<in>set fs. fst (get_frame_range w) \<le> f \<and> f \<le> snd (get_frame_range w))"
proof -
  let ?key = "\<lambda>f. \<bar>f - frame_current w\<bar>"
  let ?xs = "sort_key ?key (all_candidates w direction)"
  let ?fs = "take 10 ?xs"
  have eq: "get_precache_frames w direction = Inr ?fs"
    using assms(1,2) by (rule get_precache_frames_eq)
  have len: "length ?fs \<le> 10" by simp
  have sorted_xs: "sorted (map ?key ?xs)" by (rule sorted_sort_key)
  have "sorted (take 10 (map ?key ?xs))" using sorted_xs by (rule sorted_wrt_take)
  then have srt: "sorted (map ?key ?fs)" by (simp add: take_map)
  have mem: "\<forall>f\<in>set ?fs. precache_candidate w direction f"
  proof
    fix f assume "f \<in> set ?fs"
    then have "f \<in> set ?xs" by (rule in_set_takeD)
    then show "precache_candidate w direction f"
      using all_candidates_member [OF assms(2)] by simp
  qed
  have closest: "\<forall>g. precache_candidate w direction g \<and> g \<notin> set ?fs \<longrightarrow>
      length ?fs = 10 \<and> (\<forall>f\<in>set ?fs. ?key f \<le> ?key g)"
  proof (intro allI impI)
    fix g assume g: "precache_candidate w direction g \<and> g \<notin> set ?fs"
    then have "g \<in> set ?xs" using all_candidates_member [OF assms(2)] by simp
    with sorted_xs g show "length ?fs = 10 \<and> (\<forall>f\<in>set ?fs. ?key f \<le> ?key g)"
      by (intro take_sorted_prefix) simp_all
  qed
  have inside: "\<forall>f\<in>set ?fs. fst (get_frame_range w) \<le> f \<and> f \<le> snd (get_frame_range w)"
    using mem candidate_in_range [OF assms(2) _ assms(3,4)] by blast
  from eq len srt mem closest inside show ?thesis by blast
qed

text \<open>
  Claim C7 at the input where the code departs from it. The scenario of the claim comes out
  as the claim says. But each loop tests only the bound it moves towards, and nothing tests
  whether the current frame is inside the frame range: with the custom range 10 to 20
  switched on and the current frame 5, the frames 6 to 9, which are outside the range, head
  the list.
\<close>

theorem precache_outside_custom_range:
  "get_frame_range precache_world = (90, 110) \<and>
   get_precache_frames precache_world 0 = Inr [102, 98, 104, 96, 106, 94, 108, 92, 110, 90] \<and>
   use_frame_range (onion_skin_settings outside_world) \<and>
   get_frame_range outside_world = (10, 20) \<and>
   frame_current outside_world = 5 \<and>
   get_precache_frames outside_world 0 = Inr [6, 7, 8, 9, 10, 11, 12, 13, 14, 15]"
  by code_simp

section \<open>The background step restores the frame\<close>

text \<open>
  Claim C8, as the code has it. Whatever \<open>cache_frame\<close> does to the world, whenever
  \<open>_background_cache_step\<close> returns, or fails with an \<open>Exception\<close>, the current frame is the
  one from before the step. That is so on each early return, when \<open>cache_frame\<close> returns and
  when \<open>cache_frame\<close> raises an \<open>Exception\<close>, which the step swallows: if \<open>cache_frame\<close> raises
  nothing but \<open>Exception\<close>s, the step raises nothing else either.
\<close>

theorem background_step_restores_frame:
  "((\<forall>e. fst (background_cache_step cache_frame w) = Raised e \<longrightarrow> is_exception e) \<longrightarrow>
      frame_current (snd (background_cache_step cache_frame w)) = frame_current w) \<and>
   ((\<forall>f w' e. fst (cache_frame f w') = Raised e \<longrightarrow> is_exception e) \<longrightarrow>
      (\<forall>e. fst (background_cache_step cache_frame w) = Raised e \<longrightarrow> is_exception e))"
proof (intro conjI impI allI)
  assume ok: "\<forall>e. fst (background_cache_step cache_frame w) = Raised e \<longrightarrow> is_exception e"
  show "frame_current (snd (background_cache_step cache_frame w)) = frame_current w"
  proof (cases "context_ok w \<and> has_settings w \<and> enabled (onion_skin_settings w)
      \<and> onion_skin_objects w \<noteq> []")
    case False
    then show ?thesis by (auto simp: background_cache_step_def)
  next
    case guards: True
    show ?thesis
    proof (cases "pending_frames w = []")
      case False
      with guards have eq: "background_cache_step cache_frame w = cache_pending_frame cache_frame w"
        by (simp add: background_cache_step_def)
      with ok show ?thesis by (simp add: cache_pending_frame_returned)
    next
      case True
      show ?thesis
      proof (cases "get_precache_frames w 0")
        case (Inl e)
        with guards True show ?thesis by (simp add: background_cache_step_def)
      next
        case (Inr frames)
        show ?thesis
        proof (cases "frames = []")
          case True
          with guards \<open>pending_frames w = []\<close> Inr show ?thesis
            by (simp add: background_cache_step_def)
        next
          case False
          with guards \<open>pending_frames w = []\<close> Inr
          have eq: "background_cache_step cache_frame w
              = cache_pending_frame cache_frame (w\<lparr>pending_frames := frames\<rparr>)"
            by (simp add: background_cache_step_def)
          with ok cache_pending_frame_returned [of cache_frame "w\<lparr>pending_frames := frames\<rparr>"]
          show ?thesis by simp
        qed
      qed
    qed
  qed
next
  fix e
  assume cf: "\<forall>f w' e. fst (cache_frame f w') = Raised e \<longrightarrow> is_exception e"
    and raised: "fst (background_cache_step cache_frame w) = Raised e"
  from raised consider
      (precache) "get_precache_frames w 0 = Inl e"
    | (pending) w' where "fst (cache_pending_frame cache_frame w') = Raised e"
    by (auto simp: background_cache_step_def split: if_splits sum.splits)
  then show "is_exception e"
  proof cases
    case precache
    then show ?thesis by (rule get_precache_frames_error)
  next
    case pending
    from cache_pending_frame_raised [OF this] cf show ?thesis by blast
  qed
qed

theorem background_step_restores_frame_witness:
  "frame_current precache_world = 100 \<and>
   frame_current (snd (failing_cache_frame 102 precache_world)) = 102 \<and>
   fst (failing_cache_frame 102 precache_world) = Raised Exception \<and>
   frame_current (snd (background_cache_step failing_cache_frame precache_world)) = 100 \<and>
   fst (background_cache_step failing_cache_frame precache_world) = Returned (Some 50) \<and>
   pending_frames (snd (background_cache_step failing_cache_frame precache_world))
     = [98, 104, 96, 106, 94, 108, 92, 110, 90]"
proof -
  have c: "frame_current precache_world = 100" by (simp add: precache_world_def)
  have moved: "frame_current (snd (failing_cache_frame 102 precache_world)) = 102"
    by (simp add: failing_cache_frame_def frame_set_def)
  have raised: "fst (failing_cache_frame 102 precache_world) = Raised Exception"
    by (simp add: failing_cache_frame_def)
  have only: "\<forall>f w' e. fst (failing_cache_frame f w') = Raised e \<longrightarrow> is_exception e"
    by (simp add: failing_cache_frame_def)
  have guards: "context_ok precache_world \<and> has_settings precache_world \<and>
      enabled (onion_skin_settings precache_world) \<and> onion_skin_objects precache_world \<noteq> [] \<and>
      pending_frames precache_world = []"
    by (simp add: precache_world_def)
  have step: "background_cache_step failing_cache_frame precache_world
      = cache_pending_frame failing_cache_frame
          (precache_world\<lparr>pending_frames := [102, 98, 104, 96, 106, 94, 108, 92, 110, 90]\<rparr>)"
    using guards by (simp add: background_cache_step_def precache_world_frames)
  have ret: "fst (background_cache_step failing_cache_frame precache_world) = Returned (Some 50)"
    unfolding step
    by (simp add: cache_pending_frame_def restore_frame_def failing_cache_frame_def frame_set_def
        Let_def)
  have pend: "pending_frames (snd (background_cache_step failing_cache_frame precache_world))
     = [98, 104, 96, 106, 94, 108, 92, 110, 90]"
    unfolding step
    by (simp add: cache_pending_frame_def restore_frame_def failing_cache_frame_def frame_set_def
        Let_def)
  from background_step_restores_frame [of failing_cache_frame precache_world] only
  have "frame_current (snd (background_cache_step failing_cache_frame precache_world))
      = frame_current precache_world" by blast
  with c moved raised ret pend show ?thesis by simp
qed

text \<open>
  The claim as written fails on the exit path of an exception that is not an \<open>Exception\<close>:
  when \<open>cache_frame\<close> has moved the scene to frame 102 and a \<open>KeyboardInterrupt\<close> is raised, the
  step passes it on and the scene stays at frame 102.
\<close>

theorem background_step_interrupt_counterexample:
  "frame_current precache_world = 100 \<and>
   fst (background_cache_step interrupted_cache_frame precache_world) = Raised KeyboardInterrupt \<and>
   frame_current (snd (background_cache_step interrupted_cache_frame precache_world)) = 102"
proof -
  have guards: "context_ok precache_world \<and> has_settings precache_world \<and>
      enabled (onion_skin_settings precache_world) \<and> onion_skin_objects precache_world \<noteq> [] \<and>
      pending_frames precache_world = []"
    by (simp add: precache_world_def)
  have step: "background_cache_step interrupted_cache_frame precache_world
      = cache_pending_frame interrupted_cache_frame
          (precache_world\<lparr>pending_frames := [102, 98, 104, 96, 106, 94, 108, 92, 110, 90]\<rparr>)"
    using guards by (simp add: background_cache_step_def precache_world_frames)
  show ?thesis
    unfolding step
    by (simp add: cache_pending_frame_def interrupted_cache_frame_def frame_set_def Let_def
        precache_world_def)
qed

section \<open>No batch for a dirty frame\<close>

text \<open>
  Claim C9. In every state reached from the initial cache by a sequence of operations
  (\<open>add_to_cache\<close>, \<open>get_batch\<close>, \<open>mark_frame_dirty\<close>, \<open>mark_all_dirty\<close>,
  \<open>invalidate_frames_near\<close>, \<open>evict_distant_frames\<close>, \<open>clear_cache\<close>), no frame is both in the
  dirty set and in the batch cache, and the operations keep this from any state that has it.
  Marking a frame dirty drops its batch, marking all dirty drops all batches, an accepted
  add drops the dirty flag and the batch of its frame, and \<open>get_batch\<close> on a dirty frame
  changes nothing.
\<close>

theorem dirty_batch_disjoint:
  "dirty_frames (run_ops bfs np ops initial_cache) \<inter> dom (batch_cache (run_ops bfs np ops initial_cache)) = {} \<and>
   (dirty_frames s \<inter> dom (batch_cache s) = {} \<longrightarrow>
      dirty_frames (run_ops bfs np ops s) \<inter> dom (batch_cache (run_ops bfs np ops s)) = {}) \<and>
   batch_cache (mark_frame_dirty f s) f = None \<and>
   batch_cache (mark_all_dirty s) = Map.empty \<and>
   (add_accepts np verts indices \<longrightarrow>
      f \<notin> dirty_frames (add_to_cache np f verts indices p s) \<and>
      batch_cache (add_to_cache np f verts indices p s) f = None) \<and>
   (f \<in> dirty_frames s \<longrightarrow> snd (get_batch bfs np f s) = s)"
proof -
  have "clean_batches (run_ops bfs np ops initial_cache)"
    by (rule clean_run_ops) (rule clean_initial)
  moreover have "clean_batches s \<longrightarrow> clean_batches (run_ops bfs np ops s)"
    by (simp add: clean_run_ops)
  moreover have "batch_cache (mark_frame_dirty f s) f = None"
    by (simp add: mark_frame_dirty_def)
  moreover have "batch_cache (mark_all_dirty s) = Map.empty"
    by (simp add: mark_all_dirty_def)
  moreover have "add_accepts np verts indices \<longrightarrow>
      f \<notin> dirty_frames (add_to_cache np f verts indices p s) \<and>
      batch_cache (add_to_cache np f verts indices p s) f = None"
    by (simp add: add_dirty add_batch_frame)
  moreover have "f \<in> dirty_frames s \<longrightarrow> snd (get_batch bfs np f s) = s"
    by (simp add: get_batch_def)
  ultimately show ?thesis unfolding clean_batches_def by blast
qed

theorem dirty_batch_disjoint_witness:
  "dirty_frames (run_ops record_batch True sample_ops initial_cache) = {5} \<and>
   batch_cache (run_ops record_batch True sample_ops initial_cache) 5 = None \<and>
   batch_cache (run_ops record_batch True sample_ops initial_cache) 6 \<noteq> None \<and>
   dirty_frames (run_ops record_batch True sample_ops initial_cache)
     \<inter> dom (batch_cache (run_ops record_batch True sample_ops initial_cache)) = {} \<and>
   dirty_frames (run_ops record_batch True [MarkAllDirty, GetBatch 5]
       (run_ops record_batch True sample_ops initial_cache))
     \<inter> dom (batch_cache (run_ops record_batch True [MarkAllDirty, GetBatch 5]
       (run_ops record_batch True sample_ops initial_cache))) = {} \<and>
   add_accepts True (Some tri_verts) (Some tri_indices) \<and>
   5 \<notin> dirty_frames (add_to_cache True 5 (Some tri_verts) (Some tri_indices) ''TRIS''
       (run_ops record_batch True sample_ops initial_cache)) \<and>
   snd (get_batch record_batch True 5 (run_ops record_batch True sample_ops initial_cache))
     = run_ops record_batch True sample_ops initial_cache"
proof -
  let ?s = "run_ops record_batch True sample_ops initial_cache"
  have d: "dirty_frames ?s = {5}"
    by (simp add: run_ops_def sample_ops_def eval_defs evict_lru.simps)
  have b5: "batch_cache ?s 5 = None"
    by (simp add: run_ops_def sample_ops_def eval_defs evict_lru.simps)
  have b6: "batch_cache ?s 6 \<noteq> None"
    by (simp add: run_ops_def sample_ops_def eval_defs evict_lru.simps)
  have acc: "add_accepts True (Some tri_verts) (Some tri_indices)"
    by (simp add: add_accepts_def sample_not_empty)
  have dirty5: "5 \<in> dirty_frames ?s" by (simp add: d)
  have disj: "dirty_frames ?s \<inter> dom (batch_cache ?s) = {}"
    using dirty_batch_disjoint [of record_batch True sample_ops ?s 5 "Some tri_verts"
        "Some tri_indices" "''TRIS''"] by blast
  from dirty_batch_disjoint [of record_batch True "[MarkAllDirty, GetBatch 5]" ?s 5 "Some tri_verts"
      "Some tri_indices" "''TRIS''"] d b5 b6 acc dirty5 disj
  show ?thesis by blast
qed

section \<open>Eviction and the dirty set\<close>

text \<open>
  Claim C10. A frame that \<open>add_to_cache\<close> evicts stays in the dirty set if it was there;
  \<open>evict_distant_frames\<close> does not change the dirty set; \<open>mark_frame_dirty\<close> adds its frame
  to the dirty set and leaves the frame cache alone, whether or not the frame is stored. So
  the dirty set need not be a subset of the stored frames: after marking frame 7 dirty in
  the initial cache, the reported dirty count exceeds the reported size.
\<close>

theorem eviction_keeps_dirty:
  "(od_contains f (frame_cache s) \<and>
      \<not> od_contains f (frame_cache (add_to_cache np frame verts indices p s)) \<and>
      f \<in> dirty_frames s \<longrightarrow> f \<in> dirty_frames (add_to_cache np frame verts indices p s)) \<and>
   dirty_frames (evict_distant_frames c r s) = dirty_frames s \<and>
   F \<in> dirty_frames (mark_frame_dirty F s) \<and>
   frame_cache (mark_frame_dirty F s) = frame_cache s \<and>
   \<not> dirty_frames (mark_frame_dirty 7 (initial_cache :: sample_cache))
       \<subseteq> set (od_keys (frame_cache (mark_frame_dirty 7 (initial_cache :: sample_cache)))) \<and>
   stat_size (get_cache_stats (mark_frame_dirty 7 (initial_cache :: sample_cache)))
     < stat_dirty (get_cache_stats (mark_frame_dirty 7 (initial_cache :: sample_cache)))"
proof -
  have "dirty_frames (evict_distant_frames c r s) = dirty_frames s"
    by (simp add: evict_distant_frames_def Let_def fold_evict_dirty)
  moreover have "F \<in> dirty_frames (mark_frame_dirty F s) \<and>
      frame_cache (mark_frame_dirty F s) = frame_cache s"
    by (simp add: mark_frame_dirty_def)
  moreover have "\<not> dirty_frames (mark_frame_dirty 7 (initial_cache :: sample_cache))
       \<subseteq> set (od_keys (frame_cache (mark_frame_dirty 7 (initial_cache :: sample_cache))))"
    by (simp add: mark_frame_dirty_def initial_cache_def)
  moreover have "stat_size (get_cache_stats (mark_frame_dirty 7 (initial_cache :: sample_cache)))
     < stat_dirty (get_cache_stats (mark_frame_dirty 7 (initial_cache :: sample_cache)))"
    by (simp add: get_cache_stats_def mark_frame_dirty_def initial_cache_def)
  ultimately show ?thesis using add_keeps_dirty_of_evicted [of f s np frame verts indices p]
    by blast
qed

theorem eviction_keeps_dirty_witness:
  "od_contains 1 (frame_cache stale_full_cache) \<and>
   1 \<in> dirty_frames stale_full_cache \<and>
   \<not> od_contains 1 (frame_cache
        (add_to_cache True 501 (Some tri_verts) (Some tri_indices) ''TRIS'' stale_full_cache)) \<and>
   1 \<in> dirty_frames
        (add_to_cache True 501 (Some tri_verts) (Some tri_indices) ''TRIS'' stale_full_cache) \<and>
   160 \<in> dirty_frames (evict_distant_frames 100 50 (mark_frame_dirty 160 (cache_of_frames [100, 160]))) \<and>
   \<not> od_contains 160 (frame_cache
        (evict_distant_frames 100 50 (mark_frame_dirty 160 (cache_of_frames [100, 160]))))"
proof -
  let ?s' = "add_to_cache True 501 (Some tri_verts) (Some tri_indices) ''TRIS'' stale_full_cache"
  have fc: "frame_cache stale_full_cache = frame_cache full_cache"
    by (simp add: stale_full_cache_def mark_frame_dirty_def)
  have present: "od_contains 1 (frame_cache stale_full_cache)"
    by (simp add: fc full_cache_frames od_contains_def od_keys_def comp_def)
  have dirty: "1 \<in> dirty_frames stale_full_cache"
    by (simp add: stale_full_cache_def mark_frame_dirty_def)
  have "od_keys (frame_cache ?s') = tl [1..500] @ [501]"
    by (rule full_then_add [OF sample_not_empty])
      (simp_all add: max_cache_size_def fc full_cache_frames)
  then have gone: "\<not> od_contains 1 (frame_cache ?s')"
    unfolding upto_1_500 by (simp add: od_contains_def)
  have far: "\<not> od_contains 160 (frame_cache
        (evict_distant_frames 100 50 (mark_frame_dirty 160 (cache_of_frames [100, 160]))))"
    by (simp add: eval_defs evict_lru.simps evict_distant_frames_def)
  from eviction_keeps_dirty [of 1 stale_full_cache True 501 "Some tri_verts" "Some tri_indices"
      "''TRIS''" 100 50 160] present dirty gone
  have kept: "1 \<in> dirty_frames ?s'" by blast
  from eviction_keeps_dirty [of 160 "mark_frame_dirty 160 (cache_of_frames [100, 160])" True 501
      "Some tri_verts" "Some tri_indices" "''TRIS''" 100 50 160]
  have "160 \<in> dirty_frames (evict_distant_frames 100 50 (mark_frame_dirty 160 (cache_of_frames [100, 160])))"
    by (simp add: mark_frame_dirty_def)
  with present dirty gone kept far show ?thesis by blast
qed

end
